theory Spec2Isabelle
  imports Main
begin

section \<open>Data model of downloadManager.ts\<close>

text \<open>
  The four states of one file (type \<^verbatim>\<open>FileStatus\<close>) and the record kept for one
  download entry (interface \<^verbatim>\<open>DownloadRequest\<close>). The field \<^verbatim>\<open>id\<close> is called
  \<open>request_id\<close> here, since \<open>id\<close> is the identity function of HOL. The optional field
  \<^verbatim>\<open>error\<close> is an option: \<open>None\<close> stands for \<^verbatim>\<open>undefined\<close>.
\<close>

datatype FileStatus = pending | downloading | success | failed

record DownloadRequest =
  request_id :: string
  url :: string
  filename :: string
  status :: FileStatus
  attempts :: nat
  error :: "string option"

text \<open>
  The options of a task. In \<^verbatim>\<open>DownloadTaskOptions\<close> every field is optional; in
  \<^verbatim>\<open>NormalizedOptions\<close> the three numbers are present. JavaScript numbers are
  modelled as integers. The field \<^verbatim>\<open>directory\<close> is only handed on to the transfer
  primitive and is left out. The observer \<^verbatim>\<open>onProgress\<close> is the caller's code: the
  model records whether one is registered, logs every snapshot it is called with, and
  lets it write to the objects it was given (event \<open>ObserverWrite\<close> below). It is taken
  to return normally: an observer that throws is not modelled.
\<close>

record DownloadTaskOptions =
  opt_concurrency :: "int option"
  opt_maxRetries :: "int option"
  opt_retryDelayMs :: "int option"
  opt_onProgress :: bool

record NormalizedOptions =
  concurrency :: int
  maxRetries :: int
  retryDelayMs :: int
  onProgress :: bool

definition defaultOptions :: NormalizedOptions where
  "defaultOptions = \<lparr>concurrency = 3, maxRetries = 3, retryDelayMs = 500, onProgress = False\<rparr>"

text \<open>The spread \<^verbatim>\<open>{ ...defaultOptions, ...options }\<close>: a field that is present wins.\<close>

definition mergeOptions :: "DownloadTaskOptions \<Rightarrow> NormalizedOptions" where
  "mergeOptions options =
     \<lparr>concurrency = (case opt_concurrency options of None \<Rightarrow> concurrency defaultOptions | Some c \<Rightarrow> c),
      maxRetries = (case opt_maxRetries options of None \<Rightarrow> maxRetries defaultOptions | Some m \<Rightarrow> m),
      retryDelayMs = (case opt_retryDelayMs options of None \<Rightarrow> retryDelayMs defaultOptions | Some d \<Rightarrow> d),
      onProgress = opt_onProgress options\<rparr>"

section \<open>Filename inference\<close>

text \<open>
  \<^verbatim>\<open>String.prototype.split\<close> with a one-character separator: the pieces between the
  separators, in order; the empty string gives one empty piece.
\<close>

fun split_on :: "char \<Rightarrow> string \<Rightarrow> string list" where
  "split_on c [] = [[]]"
| "split_on c (x # xs) =
     (if x = c then [] # split_on c xs
      else (case split_on c xs of [] \<Rightarrow> [[x]] | s # ss \<Rightarrow> (x # s) # ss))"

text \<open>\<^verbatim>\<open>Array.prototype.at(-1)\<close>: the last element, \<^verbatim>\<open>undefined\<close> on the empty array.\<close>

definition at_last :: "'a list \<Rightarrow> 'a option" where
  "at_last xs = (if xs = [] then None else Some (last xs))"

text \<open>The decimal rendering of a number inside a template literal.\<close>

fun string_of_nat :: "nat \<Rightarrow> string" where
  "string_of_nat n =
     (if n < 10 then [''0123456789'' ! n]
      else string_of_nat (n div 10) @ [''0123456789'' ! (n mod 10)])"

declare string_of_nat.simps [simp del]

definition placeholder_name :: "nat \<Rightarrow> string" where
  "placeholder_name index = ''download-'' @ string_of_nat (index + 1) @ ''.jpg''"

text \<open>
  \<^verbatim>\<open>inferFilename\<close>. The constructor \<^verbatim>\<open>new URL(url)\<close> belongs to the platform, not to
  this repository, so the parser is a parameter: \<open>URL_pathname u\<close> is \<open>None\<close> when the
  constructor throws and \<open>Some\<close> of the \<^verbatim>\<open>pathname\<close> of the parsed URL otherwise. The
  \<^verbatim>\<open>catch\<close> clause is empty, so a failed parse falls through to the placeholder.
\<close>

definition inferFilename :: "(string \<Rightarrow> string option) \<Rightarrow> string \<Rightarrow> nat \<Rightarrow> string" where
  "inferFilename URL_pathname u index =
     (case URL_pathname u of
        None \<Rightarrow> placeholder_name index
      | Some p \<Rightarrow>
          (let pathname = filter (\<lambda>s. s \<noteq> []) (split_on CHR ''/'' p) in
           case at_last pathname of
             None \<Rightarrow> placeholder_name index
           | Some l \<Rightarrow>
               if l \<noteq> [] \<and> CHR ''.'' \<in> set l then l else placeholder_name index))"

text \<open>
  The specification's wording, written down independently of the code: the last
  non-empty path segment of a pathname is found by dropping the slashes at its end and
  then reading back to the previous slash; a pathname made of slashes only has none.
\<close>

definition last_nonempty_segment :: "string \<Rightarrow> string option" where
  "last_nonempty_segment p =
     (let q = dropWhile (\<lambda>c. c = CHR ''/'') (rev p) in
      if q = [] then None else Some (rev (takeWhile (\<lambda>c. c \<noteq> CHR ''/'') q)))"

section \<open>The transfer primitive and the retry engine\<close>

text \<open>
  What a \<^verbatim>\<open>catch\<close> clause can receive (its parameter has type \<^verbatim>\<open>unknown\<close>):
  \<^item> an instance of \<^verbatim>\<open>Error\<close>, with its \<^verbatim>\<open>message\<close> (a string, as its type declares);
  \<^item> any other value that \<^verbatim>\<open>String\<close> converts, kept as the string \<^verbatim>\<open>String(error)\<close> gives;
  \<^item> a value that is no instance of \<^verbatim>\<open>Error\<close> and on which \<^verbatim>\<open>String\<close> itself throws: an
    object without \<^verbatim>\<open>toString\<close> and \<^verbatim>\<open>valueOf\<close>, as \<^verbatim>\<open>Object.create(null)\<close> is, or one
    whose \<^verbatim>\<open>toString\<close> throws. What \<^verbatim>\<open>String\<close> throws then is not kept: no code of the
    repository looks at it.
\<close>

datatype thrown = ErrorInstance string | OtherValue string | Unconvertible

text \<open>
  \<^verbatim>\<open>error instanceof Error ? error.message : String(error)\<close>: the string the expression
  gives, or \<open>None\<close> when its evaluation throws.
\<close>

fun message_of :: "thrown \<Rightarrow> string option" where
  "message_of (ErrorInstance m) = Some m"
| "message_of (OtherValue v) = Some v"
| "message_of Unconvertible = None"

text \<open>How one awaited call of \<^verbatim>\<open>downloadFile\<close> ends.\<close>

datatype outcome = Ok | Throws thrown

text \<open>
  \<^verbatim>\<open>downloadFile\<close> over the behaviour of the primitives it awaits: \<^verbatim>\<open>fetch\<close>
  rejects or gives a response with its \<^verbatim>\<open>ok\<close> flag and status code,
  \<^verbatim>\<open>response.blob()\<close> rejects or not, and the save (directory write or browser
  save) rejects or not. The state of the orchestrator does not change between these
  awaits, so one call is one event of the interleaving.
\<close>

record transfer_behaviour =
  fetch_rejects :: "thrown option"
  response_ok :: bool
  response_status :: nat
  blob_rejects :: "thrown option"
  save_rejects :: "thrown option"

definition downloadFile :: "transfer_behaviour \<Rightarrow> outcome" where
  "downloadFile b =
     (case fetch_rejects b of
        Some e \<Rightarrow> Throws e
      | None \<Rightarrow>
          if \<not> response_ok b
          then Throws (ErrorInstance (''HTTP '' @ string_of_nat (response_status b)))
          else (case blob_rejects b of
                  Some e \<Rightarrow> Throws e
                | None \<Rightarrow> (case save_rejects b of Some e \<Rightarrow> Throws e | None \<Rightarrow> Ok)))"

text \<open>
  \<^verbatim>\<open>downloadWithRetry\<close> is an async function: it runs until it awaits and is resumed
  when the awaited promise settles. Where it is suspended, with its local variables
  \<^verbatim>\<open>attempt\<close> and \<^verbatim>\<open>lastError\<close>:
  \<^item> \<open>AwaitTransfer\<close>: inside \<^verbatim>\<open>await downloadFile(...)\<close>;
  \<^item> \<open>AwaitSleep\<close>: inside \<^verbatim>\<open>await sleep(backoff)\<close>, with the delay asked for;
  \<^item> \<open>Returned\<close>: it has returned and its caller has not run on yet;
  \<^item> \<open>Threw\<close>: an exception has left it, so the promise it returned is rejected, and its
    caller has not run on yet.
\<close>

datatype suspension =
  AwaitTransfer nat "thrown option"
| AwaitSleep nat "thrown option" int
| Returned
| Threw

text \<open>
  The statements after the loop: \<^verbatim>\<open>request.status = 'failed'\<close> and
  \<^verbatim>\<open>request.error = request.error ?? (lastError instanceof Error ? lastError.message : 'Unknown download error')\<close>.
\<close>

definition fallback_message :: "thrown option \<Rightarrow> string" where
  "fallback_message lastError =
     (case lastError of Some (ErrorInstance m) \<Rightarrow> m | _ \<Rightarrow> ''Unknown download error'')"

definition finish :: "thrown option \<Rightarrow> DownloadRequest \<Rightarrow> DownloadRequest" where
  "finish lastError r =
     r\<lparr>status := failed,
       error := (case error r of Some m \<Rightarrow> Some m | None \<Rightarrow> Some (fallback_message lastError))\<rparr>"

text \<open>
  The head of the loop, \<^verbatim>\<open>while (attempt <= maxRetries)\<close>: either the next iteration
  starts (\<^verbatim>\<open>request.attempts += 1\<close>, then \<^verbatim>\<open>downloadFile\<close> is called and awaited), or
  the loop is left and the request fails.
\<close>

definition loop_head ::
  "NormalizedOptions \<Rightarrow> nat \<Rightarrow> thrown option \<Rightarrow> DownloadRequest \<Rightarrow> DownloadRequest \<times> suspension" where
  "loop_head opts attempt lastError r =
     (if int attempt \<le> maxRetries opts
      then (r\<lparr>attempts := attempts r + 1\<rparr>, AwaitTransfer attempt lastError)
      else (finish lastError r, Returned))"

text \<open>
  The rest of an iteration, once \<^verbatim>\<open>downloadFile\<close> has settled. On success the request
  is marked and the function returns. The \<^verbatim>\<open>catch\<close> clause takes whatever was thrown:
  it stores the message, counts the attempt, and either breaks out of the loop or asks
  for a sleep of \<^verbatim>\<open>retryDelayMs * Math.pow(2, attempt - 1)\<close>. When the conversion to a
  message throws, the exception leaves the \<^verbatim>\<open>catch\<close> clause and the function before
  anything is assigned to \<^verbatim>\<open>request.error\<close>: the record stays as the loop head left it.
\<close>

definition transfer_settled ::
  "NormalizedOptions \<Rightarrow> nat \<Rightarrow> thrown option \<Rightarrow> outcome \<Rightarrow> DownloadRequest \<Rightarrow> DownloadRequest \<times> suspension" where
  "transfer_settled opts attempt lastError out r =
     (case out of
        Ok \<Rightarrow> (r\<lparr>status := success, error := None\<rparr>, Returned)
      | Throws e \<Rightarrow>
          (case message_of e of
             None \<Rightarrow> (r, Threw)
           | Some m \<Rightarrow>
               (let r1 = r\<lparr>error := Some m\<rparr>;
                    attempt1 = attempt + 1
                in if int attempt1 > maxRetries opts
                   then (finish (Some e) r1, Returned)
                   else (r1, AwaitSleep attempt1 (Some e) (retryDelayMs opts * 2 ^ (attempt1 - 1))))))"

text \<open>
  The whole of \<^verbatim>\<open>downloadWithRetry\<close> for one request on its own. \<open>outs k\<close> is how the
  call of \<^verbatim>\<open>downloadFile\<close> made while \<^verbatim>\<open>attempt\<close> is \<open>k\<close> ends (the call number
  \<open>k + 1\<close>). The result is the request at exit, the calls made, in order, and whether
  the promise of \<^verbatim>\<open>downloadWithRetry\<close> is rejected rather than fulfilled.
\<close>

datatype effect = CallDownloadFile | CallSleep int

record retry_exit =
  request :: DownloadRequest
  calls :: "effect list"
  rejected :: bool

function retry_run ::
  "NormalizedOptions \<Rightarrow> (nat \<Rightarrow> outcome) \<Rightarrow> suspension \<Rightarrow> DownloadRequest \<Rightarrow> effect list
     \<Rightarrow> retry_exit" where
  "retry_run opts outs Returned r tr = \<lparr>request = r, calls = tr, rejected = False\<rparr>"
| "retry_run opts outs Threw r tr = \<lparr>request = r, calls = tr, rejected = True\<rparr>"
| "retry_run opts outs (AwaitTransfer attempt lastError) r tr =
     retry_run opts outs (snd (transfer_settled opts attempt lastError (outs attempt) r))
       (fst (transfer_settled opts attempt lastError (outs attempt) r)) (tr @ [CallDownloadFile])"
| "retry_run opts outs (AwaitSleep attempt lastError ms) r tr =
     retry_run opts outs (snd (loop_head opts attempt lastError r))
       (fst (loop_head opts attempt lastError r)) (tr @ [CallSleep ms])"
  by pat_completeness auto
termination
proof (relation "measure (\<lambda>(opts, outs, sp, r, tr).
         (case sp of
            Returned \<Rightarrow> 0
          | Threw \<Rightarrow> 0
          | AwaitTransfer a _ \<Rightarrow> 2 * nat (maxRetries opts - int a) + 1
          | AwaitSleep a _ _ \<Rightarrow> 2 * nat (maxRetries opts - int a) + 2))", goal_cases)
  case 1
  show ?case by simp
next
  case (2 opts outs attempt lastError r tr)
  show ?case
    by (cases "outs attempt") (auto simp: transfer_settled_def Let_def split: option.splits)
next
  case (3 opts outs attempt lastError ms r tr)
  show ?case
    by (auto simp: loop_head_def)
qed

declare retry_run.simps [simp del]

definition downloadWithRetry ::
  "NormalizedOptions \<Rightarrow> (nat \<Rightarrow> outcome) \<Rightarrow> DownloadRequest \<Rightarrow> retry_exit" where
  "downloadWithRetry opts outs r =
     retry_run opts outs (snd (loop_head opts 0 None r)) (fst (loop_head opts 0 None r)) []"

text \<open>
  The calls made while the first \<open>k\<close> attempts fail and are retried: attempt \<open>j + 1\<close> is
  followed by a sleep of \<open>retryDelayMs * 2 ^ j\<close> milliseconds.
\<close>

definition backoff_trace :: "NormalizedOptions \<Rightarrow> nat \<Rightarrow> effect list" where
  "backoff_trace opts k =
     concat (map (\<lambda>j. [CallDownloadFile, CallSleep (retryDelayMs opts * 2 ^ j)]) [0 ..< k])"

section \<open>The orchestrator\<close>

text \<open>
  Request objects are shared by reference: the array \<^verbatim>\<open>requests\<close>, the array
  \<^verbatim>\<open>queue\<close> (a copy of the array, holding the same objects) and the variable
  \<^verbatim>\<open>item\<close> of every worker point to the same records, and \<^verbatim>\<open>updateProgress\<close>
  creates new ones. So the objects live in a store: an address is a position in the
  list \<open>heap\<close>, a new object is appended, and an array of objects is a list of addresses.
\<close>

type_synonym addr = nat

datatype progress_status = Idle | Running | Completed

record DownloadProgressSnapshot =
  total :: nat
  completed :: nat
  successes :: nat
  failures :: nat
  entries :: "addr list"
  snapshot_status :: progress_status

record DownloadResult =
  result_successes :: "addr list"
  result_failures :: "addr list"

text \<open>
  A worker is one call of \<^verbatim>\<open>processNext\<close> made by \<^verbatim>\<open>Array.from\<close>, together with
  the calls it makes of itself. It is either suspended in \<^verbatim>\<open>await downloadWithRetry(item, ...)\<close>,
  which is in turn suspended as said by the \<open>suspension\<close>, or it has finished. Once the
  innermost call finds the queue empty, the calls around it end one after another
  without touching any variable, so the worker as a whole counts as finished.

  \<^verbatim>\<open>processNext\<close> has a \<^verbatim>\<open>try\<close> with a \<^verbatim>\<open>finally\<close> block and no \<^verbatim>\<open>catch\<close> clause. A call
  whose \<^verbatim>\<open>downloadWithRetry\<close> has thrown runs its \<^verbatim>\<open>finally\<close> block, which may await
  the next call of \<^verbatim>\<open>processNext\<close>, and throws again when the block is done; the calls
  around it then do the same. So a worker in which one call holds an exception ends with
  its promise rejected, whatever its later calls do. The list \<open>rethrows\<close> below records
  this for every worker.
\<close>

datatype worker = Busy addr suspension | Finished

text \<open>
  The variables of one call of \<^verbatim>\<open>runDownloadTask\<close>, the store, the workers with the
  exceptions they hold (\<open>rethrows s ! w\<close> says that a call of worker \<open>w\<close> will throw again),
  and two logs: the snapshots the observer has been called with, and the requests
  \<^verbatim>\<open>downloadWithRetry\<close> has been called on, both in order.
\<close>

record task_state =
  heap :: "DownloadRequest list"
  requests :: "addr list"
  queue :: "addr list"
  active :: int
  workers :: "worker list"
  rethrows :: "bool list"
  emitted :: "DownloadProgressSnapshot list"
  dispatched :: "addr list"

definition live :: "task_state \<Rightarrow> DownloadRequest list" where
  "live s = map (\<lambda>a. heap s ! a) (requests s)"

text \<open>
  \<^verbatim>\<open>updateProgress\<close>: nothing without an observer; otherwise the counts are taken from
  the live records, \<^verbatim>\<open>requests.map((entry) => ({ ...entry }))\<close> creates one new object
  per request with the same fields, and the observer is called with the snapshot.
\<close>

definition updateProgress :: "NormalizedOptions \<Rightarrow> progress_status \<Rightarrow> task_state \<Rightarrow> task_state" where
  "updateProgress opts st s =
     (if \<not> onProgress opts then s
      else
        (let succ = length (filter (\<lambda>entry. status entry = success) (live s));
             fail = length (filter (\<lambda>entry. status entry = failed) (live s));
             base = length (heap s)
         in s\<lparr>heap := heap s @ live s,
              emitted := emitted s @
                [\<lparr>total = length (requests s), completed = succ + fail, successes = succ,
                  failures = fail, entries = [base ..< base + length (requests s)],
                  snapshot_status = st\<rparr>]\<rparr>))"

text \<open>
  The call \<^verbatim>\<open>downloadWithRetry(item, mergedOptions)\<close> up to its first await: the loop
  head runs on the record \<^verbatim>\<open>item\<close> points to.
\<close>

definition call_downloadWithRetry :: "NormalizedOptions \<Rightarrow> addr \<Rightarrow> task_state \<Rightarrow> task_state \<times> worker" where
  "call_downloadWithRetry opts item s =
     (s\<lparr>heap := (heap s)[item := fst (loop_head opts 0 None (heap s ! item))],
        dispatched := dispatched s @ [item]\<rparr>,
      Busy item (snd (loop_head opts 0 None (heap s ! item))))"

text \<open>
  \<^verbatim>\<open>processNext\<close> from its start to its first await: return on an empty queue;
  otherwise \<^verbatim>\<open>queue.shift()\<close>, \<^verbatim>\<open>active += 1\<close>, \<^verbatim>\<open>item.status = 'downloading'\<close>, a
  snapshot, and the call of the retry engine. The result is the new state and where
  the calling worker now stands.
\<close>

definition processNext :: "NormalizedOptions \<Rightarrow> task_state \<Rightarrow> task_state \<times> worker" where
  "processNext opts s =
     (case queue s of
        [] \<Rightarrow> (s, Finished)
      | item # rest \<Rightarrow>
          call_downloadWithRetry opts item
            (updateProgress opts Running
               (s\<lparr>queue := rest, active := active s + 1,
                  heap := (heap s)[item := (heap s ! item)\<lparr>status := downloading\<rparr>]\<rparr>)))"

text \<open>
  The \<^verbatim>\<open>finally\<close> block of \<^verbatim>\<open>processNext\<close>: \<^verbatim>\<open>active -= 1\<close> and, if the queue is not
  empty, \<^verbatim>\<open>await processNext()\<close>.
\<close>

definition finally_processNext :: "NormalizedOptions \<Rightarrow> task_state \<Rightarrow> task_state \<times> worker" where
  "finally_processNext opts s =
     (let s2 = s\<lparr>active := active s - 1\<rparr>
      in if queue s2 \<noteq> [] then processNext opts s2 else (s2, Finished))"

text \<open>
  \<^verbatim>\<open>processNext\<close> after \<^verbatim>\<open>await downloadWithRetry(...)\<close> has returned: a snapshot, then
  the \<^verbatim>\<open>finally\<close> block. When \<^verbatim>\<open>downloadWithRetry\<close> has thrown, the snapshot is skipped
  and the \<^verbatim>\<open>finally\<close> block runs alone (see \<open>step\<close> below).
\<close>

definition continue_processNext :: "NormalizedOptions \<Rightarrow> task_state \<Rightarrow> task_state \<times> worker" where
  "continue_processNext opts s = finally_processNext opts (updateProgress opts Running s)"

text \<open>
  What the environment does, one event at a time. Code runs without interruption
  between two awaits, so an event is one such stretch:
  \<^item> \<open>TransferDone w b\<close>: the \<^verbatim>\<open>downloadFile\<close> call worker \<open>w\<close> waits for ends as \<open>b\<close> says;
  \<^item> \<open>TimerFired w\<close>: the sleep worker \<open>w\<close> waits for is over;
  \<^item> \<open>Resume w\<close>: worker \<open>w\<close>, whose \<^verbatim>\<open>downloadWithRetry\<close> has returned or thrown, runs on;
  \<^item> \<open>ObserverWrite a r\<close>: the observer overwrites the object at \<open>a\<close> with \<open>r\<close>; it can
    reach the entries of the snapshots it has been called with, and nothing else.
  An event that nobody waits for does not happen: the state stays as it is. The events
  may come in any order, so every order in which the promises can settle and the
  continuations can run is covered.
\<close>

datatype event =
  TransferDone nat transfer_behaviour
| TimerFired nat
| Resume nat
| ObserverWrite addr DownloadRequest

definition observer_reach :: "task_state \<Rightarrow> addr set" where
  "observer_reach s = (\<Union>snap \<in> set (emitted s). set (entries snap))"

fun enabled :: "task_state \<Rightarrow> event \<Rightarrow> bool" where
  "enabled s (TransferDone w b) =
     (w < length (workers s) \<and>
      (case workers s ! w of Busy item (AwaitTransfer attempt lastError) \<Rightarrow> True | _ \<Rightarrow> False))"
| "enabled s (TimerFired w) =
     (w < length (workers s) \<and>
      (case workers s ! w of Busy item (AwaitSleep attempt lastError ms) \<Rightarrow> True | _ \<Rightarrow> False))"
| "enabled s (Resume w) =
     (w < length (workers s) \<and>
      (case workers s ! w of Busy item Returned \<Rightarrow> True | Busy item Threw \<Rightarrow> True | _ \<Rightarrow> False))"
| "enabled s (ObserverWrite a r) = (a \<in> observer_reach s)"

fun step :: "NormalizedOptions \<Rightarrow> task_state \<Rightarrow> event \<Rightarrow> task_state" where
  "step opts s (TransferDone w b) =
     (if w < length (workers s) then
        (case workers s ! w of
           Busy item (AwaitTransfer attempt lastError) \<Rightarrow>
             s\<lparr>heap := (heap s)[item := fst (transfer_settled opts attempt lastError (downloadFile b) (heap s ! item))],
               workers := (workers s)[w := Busy item (snd (transfer_settled opts attempt lastError (downloadFile b) (heap s ! item)))]\<rparr>
         | _ \<Rightarrow> s)
      else s)"
| "step opts s (TimerFired w) =
     (if w < length (workers s) then
        (case workers s ! w of
           Busy item (AwaitSleep attempt lastError ms) \<Rightarrow>
             s\<lparr>heap := (heap s)[item := fst (loop_head opts attempt lastError (heap s ! item))],
               workers := (workers s)[w := Busy item (snd (loop_head opts attempt lastError (heap s ! item)))]\<rparr>
         | _ \<Rightarrow> s)
      else s)"
| "step opts s (Resume w) =
     (if w < length (workers s) then
        (case workers s ! w of
           Busy item Returned \<Rightarrow>
             (fst (continue_processNext opts s))
               \<lparr>workers := (workers s)[w := snd (continue_processNext opts s)]\<rparr>
         | Busy item Threw \<Rightarrow>
             (fst (finally_processNext opts s))
               \<lparr>workers := (workers s)[w := snd (finally_processNext opts s)],
                rethrows := (rethrows s)[w := True]\<rparr>
         | _ \<Rightarrow> s)
      else s)"
| "step opts s (ObserverWrite a r) =
     (if a \<in> observer_reach s then s\<lparr>heap := (heap s)[a := r]\<rparr> else s)"

fun run :: "NormalizedOptions \<Rightarrow> task_state \<Rightarrow> event list \<Rightarrow> task_state" where
  "run opts s [] = s"
| "run opts s (e # es) = run opts (step opts s e) es"

text \<open>
  \<^verbatim>\<open>Array.from({ length: concurrency }, () => processNext())\<close>: the workers are started
  one after the other, each running up to its first await. A length below one gives
  no worker.
\<close>

fun launch :: "NormalizedOptions \<Rightarrow> nat \<Rightarrow> task_state \<Rightarrow> task_state" where
  "launch opts 0 s = s"
| "launch opts (Suc n) s =
     launch opts n
       ((fst (processNext opts s))
          \<lparr>workers := workers s @ [snd (processNext opts s)], rethrows := rethrows s @ [False]\<rparr>)"

text \<open>
  The records built from the URLs. \<^verbatim>\<open>createTaskId\<close> draws from the platform's random
  source; \<open>ids i\<close> is the token drawn for the entry at index \<open>i\<close>.
\<close>

definition make_request :: "(string \<Rightarrow> string option) \<Rightarrow> (nat \<Rightarrow> string) \<Rightarrow> nat \<Rightarrow> string \<Rightarrow> DownloadRequest" where
  "make_request URL_pathname ids index u =
     \<lparr>request_id = ids index, url = u, filename = inferFilename URL_pathname u index,
      status = pending, attempts = 0, error = None\<rparr>"

definition initial_state :: "(string \<Rightarrow> string option) \<Rightarrow> (nat \<Rightarrow> string) \<Rightarrow> string list \<Rightarrow> task_state" where
  "initial_state URL_pathname ids urls =
     \<lparr>heap = map (\<lambda>i. make_request URL_pathname ids i (urls ! i)) [0 ..< length urls],
      requests = [0 ..< length urls],
      queue = [0 ..< length urls],
      active = 0,
      workers = [],
      rethrows = [],
      emitted = [],
      dispatched = []\<rparr>"

text \<open>The state when \<^verbatim>\<open>runDownloadTask\<close> reaches \<^verbatim>\<open>await Promise.all(workers)\<close>.\<close>

definition started :: "(string \<Rightarrow> string option) \<Rightarrow> (nat \<Rightarrow> string) \<Rightarrow> NormalizedOptions \<Rightarrow> string list \<Rightarrow> task_state" where
  "started URL_pathname ids opts urls =
     launch opts (nat (concurrency opts))
       (updateProgress opts Idle (initial_state URL_pathname ids urls))"

definition all_finished :: "task_state \<Rightarrow> bool" where
  "all_finished s = list_all (\<lambda>w. w = Finished) (workers s)"

definition collect :: "task_state \<Rightarrow> DownloadResult" where
  "collect s =
     \<lparr>result_successes = filter (\<lambda>a. status (heap s ! a) = success) (requests s),
      result_failures = filter (\<lambda>a. status (heap s ! a) = failed) (requests s)\<rparr>"

definition no_state :: task_state where
  "no_state = \<lparr>heap = [], requests = [], queue = [], active = 0, workers = [], rethrows = [],
     emitted = [], dispatched = []\<rparr>"

text \<open>
  The promise of a worker is rejected once the worker has finished while one of its
  calls held an exception; \<^verbatim>\<open>Promise.all\<close> is rejected as soon as one of its promises is.
\<close>

definition worker_rejected :: "task_state \<Rightarrow> bool" where
  "worker_rejected s = list_ex (\<lambda>(wk, rt). wk = Finished \<and> rt) (zip (workers s) (rethrows s))"

text \<open>The state of the promise an async function has returned.\<close>

datatype 'a promise = Pending | Fulfilled 'a | Rejected

text \<open>
  \<^verbatim>\<open>runDownloadTask\<close> under the events \<open>sched\<close>. The promise it returns is rejected
  once \<^verbatim>\<open>await Promise.all(workers)\<close> throws, with no further snapshot and no result
  (the workers still waiting go on all the same); it is fulfilled with a result once
  every worker has finished with its promise fulfilled, after a last snapshot; it is
  pending while a worker waits and none is rejected. The second component is the state
  reached, with the log of the snapshots delivered.
\<close>

definition runDownloadTask ::
  "(string \<Rightarrow> string option) \<Rightarrow> (nat \<Rightarrow> string) \<Rightarrow> string list \<Rightarrow> DownloadTaskOptions \<Rightarrow> event list
     \<Rightarrow> DownloadResult promise \<times> task_state" where
  "runDownloadTask URL_pathname ids urls options sched =
     (if urls = [] then (Fulfilled \<lparr>result_successes = [], result_failures = []\<rparr>, no_state)
      else
        (let opts = mergeOptions options;
             s = run opts (started URL_pathname ids opts urls) sched
         in if worker_rejected s then (Rejected, s)
            else if all_finished s
            then (Fulfilled (collect (updateProgress opts Completed s)), updateProgress opts Completed s)
            else (Pending, s)))"

section \<open>Invariants of a running task\<close>

text \<open>
  A record agrees with where its worker stands: a request is \<^verbatim>\<open>success\<close> or \<^verbatim>\<open>failed\<close>
  once the retry engine has returned, and \<^verbatim>\<open>downloading\<close> while the engine works on it
  and also after the engine has thrown.
\<close>

definition consistent :: "DownloadRequest \<Rightarrow> suspension \<Rightarrow> bool" where
  "consistent r sp =
     (if sp = Returned then status r = success \<or> status r = failed else status r = downloading)"

text \<open>
  The snapshots delivered so far: their counts, and their entries, which are objects
  of their own, stored behind the records of the requests.
\<close>

definition snapshots_ok :: "nat \<Rightarrow> task_state \<Rightarrow> bool" where
  "snapshots_ok N s \<longleftrightarrow>
     requests s = [0 ..< N] \<and> N \<le> length (heap s)
     \<and> (\<forall>snap \<in> set (emitted s).
           total snap = N \<and> completed snap = successes snap + failures snap
           \<and> completed snap \<le> total snap
           \<and> (\<forall>a \<in> set (entries snap). N \<le> a \<and> a < length (heap s)))"

text \<open>
  The requests are the first objects of the store, in the order of the URLs; the queue
  is what is left of them, still pending; the log of dispatches is what was taken.
\<close>

definition shape_ok :: "string list \<Rightarrow> task_state \<Rightarrow> bool" where
  "shape_ok urls s \<longleftrightarrow>
     length urls \<le> length (heap s)
     \<and> dispatched s @ queue s = [0 ..< length urls]
     \<and> (\<forall>a \<in> set (queue s). status (heap s ! a) = pending)
     \<and> (\<forall>a < length urls. url (heap s ! a) = urls ! a)"

text \<open>
  The workers \<open>ws\<close>: each busy worker holds a dispatched request in agreement with its
  record, no two hold the same request, a finished worker has seen the queue empty, and
  no dispatched request is \<^verbatim>\<open>pending\<close>.
\<close>

definition workers_ok :: "worker list \<Rightarrow> task_state \<Rightarrow> bool" where
  "workers_ok ws s \<longleftrightarrow>
     (\<forall>i < length ws. case ws ! i of
         Finished \<Rightarrow> queue s = []
       | Busy a sp \<Rightarrow> a \<in> set (dispatched s) \<and> consistent (heap s ! a) sp)
     \<and> (\<forall>i < length ws. \<forall>j < length ws. \<forall>a sp sp'.
           i \<noteq> j \<and> ws ! i = Busy a sp \<longrightarrow> ws ! j \<noteq> Busy a sp')
     \<and> (\<forall>a \<in> set (dispatched s). status (heap s ! a) \<noteq> pending)"

text \<open>
  Every dispatched request that is \<^verbatim>\<open>downloading\<close> is held by a worker whose retry engine
  has not returned, unless some worker holds an exception: a request whose retry engine
  has thrown stays \<^verbatim>\<open>downloading\<close> when its worker moves on.
\<close>

definition held_ok :: "worker list \<Rightarrow> task_state \<Rightarrow> bool" where
  "held_ok ws s \<longleftrightarrow>
     (\<forall>a \<in> set (dispatched s).
        status (heap s ! a) = downloading \<longrightarrow>
          (\<exists>i < length ws. \<exists>sp. ws ! i = Busy a sp \<and> sp \<noteq> Returned) \<or> True \<in> set (rethrows s))"

definition task_inv :: "string list \<Rightarrow> nat \<Rightarrow> task_state \<Rightarrow> bool" where
  "task_inv urls n s \<longleftrightarrow>
     shape_ok urls s \<and> workers_ok (workers s) s \<and> held_ok (workers s) s
     \<and> snapshots_ok (length urls) s
     \<and> length (workers s) \<le> n \<and> length (rethrows s) = length (workers s)"

text \<open>
  \<open>ws'\<close> is \<open>ws\<close> with the state \<open>wk\<close> put at position \<open>k\<close>, in place of a worker or as a
  new last worker (\<open>replaces\<close>); no worker whose retry engine has not returned is lost
  by it (\<open>installs\<close>).
\<close>

definition replaces :: "worker list \<Rightarrow> nat \<Rightarrow> worker \<Rightarrow> worker list \<Rightarrow> bool" where
  "replaces ws k wk ws' \<longleftrightarrow>
     k < length ws' \<and> ws' ! k = wk
     \<and> (\<forall>i < length ws'. i \<noteq> k \<longrightarrow> i < length ws \<and> ws' ! i = ws ! i)"

definition installs :: "worker list \<Rightarrow> nat \<Rightarrow> worker \<Rightarrow> worker list \<Rightarrow> bool" where
  "installs ws k wk ws' \<longleftrightarrow>
     replaces ws k wk ws'
     \<and> (\<forall>i < length ws. \<forall>a sp. ws ! i = Busy a sp \<and> sp \<noteq> Returned \<longrightarrow> i < length ws' \<and> i \<noteq> k)"

section \<open>The observer's writes\<close>

fun is_observer_write :: "event \<Rightarrow> bool" where
  "is_observer_write (ObserverWrite a r) = True"
| "is_observer_write _ = False"

text \<open>
  Two states are the same to the orchestrator when they agree on its variables, on the
  workers and the exceptions they hold, on the snapshots delivered, on the size of the
  store and on the records of the requests; the objects of the snapshots may differ.
\<close>

definition same_orchestration :: "task_state \<Rightarrow> task_state \<Rightarrow> bool" where
  "same_orchestration s t \<longleftrightarrow>
     requests s = requests t \<and> queue s = queue t \<and> active s = active t
     \<and> workers s = workers t \<and> rethrows s = rethrows t
     \<and> emitted s = emitted t \<and> dispatched s = dispatched t
     \<and> length (heap s) = length (heap t)
     \<and> (\<forall>a \<in> set (requests s). heap s ! a = heap t ! a)"

section \<open>How many events a task can take\<close>

text \<open>
  An upper bound on the events a worker can still take for the request it holds: a
  transfer that settles is followed by a sleep and the next transfer as long as retries
  are left, and the exit of the retry engine by one continuation of the worker.
\<close>

fun steps_left :: "NormalizedOptions \<Rightarrow> worker \<Rightarrow> nat" where
  "steps_left opts Finished = 0"
| "steps_left opts (Busy item Returned) = 1"
| "steps_left opts (Busy item Threw) = 1"
| "steps_left opts (Busy item (AwaitTransfer attempt lastError)) =
     2 * nat (maxRetries opts - int attempt) + 2"
| "steps_left opts (Busy item (AwaitSleep attempt lastError ms)) =
     2 * nat (maxRetries opts - int attempt) + 3"

text \<open>The same for a whole task: every request still in the queue counts in full.\<close>

definition potential :: "NormalizedOptions \<Rightarrow> task_state \<Rightarrow> nat" where
  "potential opts s =
     sum_list (map (steps_left opts) (workers s))
     + length (queue s) * (2 * nat (maxRetries opts) + 3)"

text \<open>
  The number of events of \<open>sched\<close> that do happen to a worker: the awaited promises that
  settle, and the continuations that run.
\<close>

fun effective :: "NormalizedOptions \<Rightarrow> task_state \<Rightarrow> event list \<Rightarrow> nat" where
  "effective opts s [] = 0"
| "effective opts s (e # es) =
     (if enabled s e \<and> \<not> is_observer_write e then 1 else 0) + effective opts (step opts s e) es"

section \<open>Exceptions that leave the retry engine\<close>

text \<open>
  The events at which the \<^verbatim>\<open>catch\<close> clause of the retry engine throws: a transfer ends
  by throwing a value that cannot be converted to a message.
\<close>

fun throws_unconvertible :: "event \<Rightarrow> bool" where
  "throws_unconvertible (TransferDone w b) = (downloadFile b = Throws Unconvertible)"
| "throws_unconvertible (TimerFired w) = False"
| "throws_unconvertible (Resume w) = False"
| "throws_unconvertible (ObserverWrite a r) = False"

text \<open>No retry engine has thrown, and no worker holds an exception.\<close>

definition no_exception :: "task_state \<Rightarrow> bool" where
  "no_exception s \<longleftrightarrow>
     True \<notin> set (rethrows s)
     \<and> list_all (\<lambda>wk. case wk of Busy item Threw \<Rightarrow> False | _ \<Rightarrow> True) (workers s)"

section \<open>Sample inputs\<close>

text \<open>Tokens, and behaviours of the transfer primitive, for the worked examples.\<close>

definition example_ids :: "nat \<Rightarrow> string" where
  "example_ids i = ''task-'' @ string_of_nat i"

definition http_error :: "nat \<Rightarrow> transfer_behaviour" where
  "http_error code = \<lparr>fetch_rejects = None, response_ok = False, response_status = code,
     blob_rejects = None, save_rejects = None\<rparr>"

definition transfer_ok :: transfer_behaviour where
  "transfer_ok = \<lparr>fetch_rejects = None, response_ok = True, response_status = 200,
     blob_rejects = None, save_rejects = None\<rparr>"

definition network_down :: transfer_behaviour where
  "network_down = \<lparr>fetch_rejects = Some (ErrorInstance ''Failed to fetch''), response_ok = False,
     response_status = 0, blob_rejects = None, save_rejects = None\<rparr>"

definition save_denied :: transfer_behaviour where
  "save_denied = \<lparr>fetch_rejects = None, response_ok = True, response_status = 200,
     blob_rejects = None, save_rejects = Some (OtherValue ''write denied'')\<rparr>"

text \<open>
  The write to the directory handle the caller passed in is rejected with
  \<^verbatim>\<open>Object.create(null)\<close>.
\<close>

definition save_throws_bare_object :: transfer_behaviour where
  "save_throws_bare_object = \<lparr>fetch_rejects = None, response_ok = True, response_status = 200,
     blob_rejects = None, save_rejects = Some Unconvertible\<rparr>"

section \<open>Filename inference: the code against the wording\<close>

lemma split_on_not_Nil [simp]: "split_on c xs \<noteq> []"
  by (induction xs) (auto split: list.splits)

lemma split_on_no_sep: "c \<notin> set s \<Longrightarrow> split_on c s = [s]"
  by (induction s) auto

lemma split_on_append_sep:
  "split_on c (xs @ c # ys) = split_on c xs @ split_on c ys"
  by (induction xs) (auto split: list.splits)

lemma split_on_all_sep: "set zs \<subseteq> {c} \<Longrightarrow> filter (\<lambda>s. s \<noteq> []) (split_on c zs) = []"
  by (induction zs) auto

lemma segments_decompose:
  assumes "c \<notin> set s" "s \<noteq> []" "set zs \<subseteq> {c}"
  shows "at_last (filter (\<lambda>s. s \<noteq> []) (split_on c (s @ zs))) = Some s"
    and "at_last (filter (\<lambda>s. s \<noteq> []) (split_on c (pre @ c # s @ zs))) = Some s"
proof -
  have a: "filter (\<lambda>s. s \<noteq> []) (split_on c (s @ zs)) = [s]"
  proof (cases zs)
    case Nil
    then show ?thesis using assms by (simp add: split_on_no_sep)
  next
    case (Cons z zs')
    then have "z = c" "set zs' \<subseteq> {c}" using assms by auto
    then show ?thesis using assms Cons
      by (simp add: split_on_append_sep split_on_no_sep split_on_all_sep)
  qed
  show "at_last (filter (\<lambda>s. s \<noteq> []) (split_on c (s @ zs))) = Some s"
    by (simp add: a at_last_def)
  show "at_last (filter (\<lambda>s. s \<noteq> []) (split_on c (pre @ c # s @ zs))) = Some s"
    by (simp add: split_on_append_sep a at_last_def)
qed

lemma at_last_segments:
  "at_last (filter (\<lambda>s. s \<noteq> []) (split_on CHR ''/'' p)) = last_nonempty_segment p"
proof -
  define t where "t = takeWhile (\<lambda>c. c = CHR ''/'') (rev p)"
  define q where "q = dropWhile (\<lambda>c. c = CHR ''/'') (rev p)"
  have "rev p = t @ q" by (simp add: t_def q_def)
  then have "rev (rev p) = rev (t @ q)" by simp
  then have p: "p = rev q @ rev t" by simp
  have t: "set (rev t) \<subseteq> {CHR ''/''}"
    unfolding t_def using set_takeWhileD by fastforce
  show ?thesis
  proof (cases "q = []")
    case True
    then have "p = rev t" using p by simp
    then show ?thesis using t True
      by (auto simp add: last_nonempty_segment_def q_def[symmetric] split_on_all_sep at_last_def)
  next
    case False
    define s where "s = takeWhile (\<lambda>c. c \<noteq> CHR ''/'') q"
    define r where "r = dropWhile (\<lambda>c. c \<noteq> CHR ''/'') q"
    have q: "q = s @ r" by (simp add: s_def r_def)
    have hdq: "hd q \<noteq> CHR ''/''"
      using hd_dropWhile[of "\<lambda>c. c = CHR ''/''" "rev p"] False by (simp add: q_def)
    then have sne: "s \<noteq> []" using False unfolding s_def by (cases q) auto
    have sfree: "CHR ''/'' \<notin> set (rev s)" unfolding s_def
      using set_takeWhileD by fastforce
    have res: "last_nonempty_segment p = Some (rev s)"
      using False by (simp add: last_nonempty_segment_def q_def[symmetric] s_def)
    show ?thesis
    proof (cases r)
      case Nil
      then have "p = rev s @ rev t" using p q by simp
      then show ?thesis using segments_decompose(1)[OF sfree _ t] sne res by simp
    next
      case (Cons x r')
      then have "x = CHR ''/''"
        using hd_dropWhile[of "\<lambda>c. c \<noteq> CHR ''/''" q] by (simp add: r_def)
      then have "p = rev r' @ CHR ''/'' # rev s @ rev t" using p q Cons by simp
      then show ?thesis using segments_decompose(2)[OF sfree _ t, of "rev r'"] sne res by simp
    qed
  qed
qed

text \<open>
  C7. For every URL string and 0-based index, the inferred filename is the last
  non-empty path segment of the parsed URL when that segment contains a dot, and the
  placeholder \<open>download-(index + 1).jpg\<close> otherwise, also when the URL does not parse.
  With the pathnames the platform's parser gives for them, \<open>https://a/b/c.png\<close> yields
  \<open>c.png\<close> and \<open>https://a/b/\<close> at index 2 yields \<open>download-3.jpg\<close>.
\<close>

theorem inferFilename_last_segment:
  "inferFilename URL_pathname u i =
     (case URL_pathname u of
        None \<Rightarrow> ''download-'' @ string_of_nat (i + 1) @ ''.jpg''
      | Some p \<Rightarrow>
          (case last_nonempty_segment p of
             None \<Rightarrow> ''download-'' @ string_of_nat (i + 1) @ ''.jpg''
           | Some seg \<Rightarrow>
               if CHR ''.'' \<in> set seg then seg else ''download-'' @ string_of_nat (i + 1) @ ''.jpg''))
   \<and> (URL_pathname ''https://a/b/c.png'' = Some ''/b/c.png'' \<longrightarrow>
        inferFilename URL_pathname ''https://a/b/c.png'' i = ''c.png'')
   \<and> (URL_pathname ''https://a/b/'' = Some ''/b/'' \<longrightarrow>
        inferFilename URL_pathname ''https://a/b/'' 2 = ''download-3.jpg'')"
proof (intro conjI impI)
  show "inferFilename URL_pathname u i =
     (case URL_pathname u of
        None \<Rightarrow> ''download-'' @ string_of_nat (i + 1) @ ''.jpg''
      | Some p \<Rightarrow>
          (case last_nonempty_segment p of
             None \<Rightarrow> ''download-'' @ string_of_nat (i + 1) @ ''.jpg''
           | Some seg \<Rightarrow>
               if CHR ''.'' \<in> set seg then seg else ''download-'' @ string_of_nat (i + 1) @ ''.jpg''))"
    unfolding inferFilename_def Let_def at_last_segments placeholder_name_def
    by (auto split: option.splits)
next
  assume "URL_pathname ''https://a/b/c.png'' = Some ''/b/c.png''"
  then show "inferFilename URL_pathname ''https://a/b/c.png'' i = ''c.png''"
    by (simp add: inferFilename_def at_last_def)
next
  assume "URL_pathname ''https://a/b/'' = Some ''/b/''"
  then show "inferFilename URL_pathname ''https://a/b/'' 2 = ''download-3.jpg''"
    by (simp add: inferFilename_def at_last_def placeholder_name_def string_of_nat.simps)
qed

theorem inferFilename_last_segment_witness:
  "inferFilename (\<lambda>u. if u = ''https://a/b/c.png'' then Some ''/b/c.png''
                       else if u = ''https://a/b/'' then Some ''/b/'' else None)
     ''https://a/b/c.png'' 0 = ''c.png''
   \<and> inferFilename (\<lambda>u. if u = ''https://a/b/c.png'' then Some ''/b/c.png''
                       else if u = ''https://a/b/'' then Some ''/b/'' else None)
     ''https://a/b/'' 2 = ''download-3.jpg''
   \<and> inferFilename (\<lambda>u. if u = ''https://a/b/c.png'' then Some ''/b/c.png''
                       else if u = ''https://a/b/'' then Some ''/b/'' else None)
     ''not a url'' 6 = ''download-7.jpg''"
  using inferFilename_last_segment
    [of "\<lambda>u. if u = ''https://a/b/c.png'' then Some ''/b/c.png''
              else if u = ''https://a/b/'' then Some ''/b/'' else None" "''not a url''" 6]
    inferFilename_last_segment
    [of "\<lambda>u. if u = ''https://a/b/c.png'' then Some ''/b/c.png''
              else if u = ''https://a/b/'' then Some ''/b/'' else None" "''not a url''" 0]
  by (simp add: string_of_nat.simps)

section \<open>The retry engine\<close>

lemma message_of_None [simp]: "message_of e = None \<longleftrightarrow> e = Unconvertible"
  by (cases e) simp_all

lemma message_of_Some: "e \<noteq> Unconvertible \<Longrightarrow> \<exists>m. message_of e = Some m"
  by (cases e) simp_all

lemma retry_run_retry:
  assumes "outs k = Throws e" and "message_of e = Some m" and "int (Suc k) \<le> maxRetries opts"
  shows "retry_run opts outs (AwaitTransfer k lastError) r tr =
         retry_run opts outs (AwaitTransfer (Suc k) (Some e))
           (r\<lparr>attempts := attempts r + 1, error := Some m\<rparr>)
           (tr @ [CallDownloadFile, CallSleep (retryDelayMs opts * 2 ^ k)])"
  using assms
  apply (subst retry_run.simps(3))
  apply (simp add: transfer_settled_def Let_def)
  apply (subst retry_run.simps(4))
  apply (cases r)
  apply (simp add: loop_head_def)
  done

lemma retry_run_success:
  assumes "outs k = Ok"
  shows "retry_run opts outs (AwaitTransfer k lastError) r tr =
         \<lparr>request = r\<lparr>status := success, error := None\<rparr>, calls = tr @ [CallDownloadFile],
          rejected = False\<rparr>"
  using assms
  by (simp add: retry_run.simps(1,3) transfer_settled_def)

lemma retry_run_exhausted:
  assumes "outs k = Throws e" and "message_of e = Some m" and "maxRetries opts < int (Suc k)"
  shows "retry_run opts outs (AwaitTransfer k lastError) r tr =
         \<lparr>request = r\<lparr>status := failed, error := Some m\<rparr>, calls = tr @ [CallDownloadFile],
          rejected = False\<rparr>"
  using assms
  by (simp add: retry_run.simps(1,3) transfer_settled_def finish_def Let_def)

lemma retry_run_throws:
  assumes "outs k = Throws Unconvertible"
  shows "retry_run opts outs (AwaitTransfer k lastError) r tr =
         \<lparr>request = r, calls = tr @ [CallDownloadFile], rejected = True\<rparr>"
  using assms
  by (simp add: retry_run.simps(2,3) transfer_settled_def)

lemma finish_with_error:
  "error r = Some m \<Longrightarrow> finish lastError r = r\<lparr>status := failed\<rparr>"
  by (simp add: finish_def)



lemma retry_run_failures:
  assumes "int k \<le> maxRetries opts" and "\<forall>j<k. \<exists>e. outs j = Throws e \<and> e \<noteq> Unconvertible"
  shows "\<exists>lastError err.
           retry_run opts outs (AwaitTransfer 0 None) r [] =
           retry_run opts outs (AwaitTransfer k lastError)
             (r\<lparr>attempts := attempts r + k, error := err\<rparr>) (backoff_trace opts k)"
  using assms
proof (induction k)
  case 0
  show ?case by (auto simp: backoff_trace_def intro!: exI[of _ None] exI[of _ "error r"])
next
  case (Suc k)
  then obtain lastError err where
    eq: "retry_run opts outs (AwaitTransfer 0 None) r [] =
         retry_run opts outs (AwaitTransfer k lastError)
           (r\<lparr>attempts := attempts r + k, error := err\<rparr>) (backoff_trace opts k)"
    by auto
  from Suc.prems obtain e where e: "outs k = Throws e" "e \<noteq> Unconvertible" by auto
  then obtain m where m: "message_of e = Some m" using message_of_Some by blast
  have le: "int (Suc k) \<le> maxRetries opts" using Suc.prems by simp
  have "retry_run opts outs (AwaitTransfer k lastError)
           (r\<lparr>attempts := attempts r + k, error := err\<rparr>) (backoff_trace opts k) =
        retry_run opts outs (AwaitTransfer (Suc k) (Some e))
           (r\<lparr>attempts := attempts r + Suc k, error := Some m\<rparr>)
           (backoff_trace opts (Suc k))"
    using retry_run_retry[of outs k e m opts, OF e(1) m le] by (cases r) (simp add: backoff_trace_def)
  with eq show ?case by auto
qed

lemma downloadWithRetry_enter:
  "0 \<le> maxRetries opts \<Longrightarrow>
   downloadWithRetry opts outs r =
   retry_run opts outs (AwaitTransfer 0 None) (r\<lparr>attempts := attempts r + 1\<rparr>) []"
  by (simp add: downloadWithRetry_def loop_head_def)

lemma downloadWithRetry_succeeds:
  assumes "int k \<le> maxRetries opts" and "\<forall>j<k. \<exists>e. outs j = Throws e \<and> e \<noteq> Unconvertible"
    and "outs k = Ok"
  shows "downloadWithRetry opts outs r =
         \<lparr>request = r\<lparr>attempts := attempts r + k + 1, status := success, error := None\<rparr>,
          calls = backoff_trace opts k @ [CallDownloadFile], rejected = False\<rparr>"
proof -
  have M: "0 \<le> maxRetries opts" using assms(1) by linarith
  obtain lastError err where
    "retry_run opts outs (AwaitTransfer 0 None) (r\<lparr>attempts := attempts r + 1\<rparr>) [] =
     retry_run opts outs (AwaitTransfer k lastError)
       (r\<lparr>attempts := attempts r + 1, attempts := attempts (r\<lparr>attempts := attempts r + 1\<rparr>) + k,
          error := err\<rparr>) (backoff_trace opts k)"
    using retry_run_failures[OF assms(1,2), of "r\<lparr>attempts := attempts r + 1\<rparr>"] by auto
  then show ?thesis
    using retry_run_success[of outs k opts] assms(3) M
    by (cases r) (simp add: downloadWithRetry_enter)
qed

lemma downloadWithRetry_exhausted:
  assumes "0 \<le> maxRetries opts"
    and "\<forall>j. int j \<le> maxRetries opts \<longrightarrow> (\<exists>e. outs j = Throws e \<and> e \<noteq> Unconvertible)"
    and "outs (nat (maxRetries opts)) = Throws e" and "message_of e = Some m"
  shows "downloadWithRetry opts outs r =
         \<lparr>request = r\<lparr>attempts := attempts r + nat (maxRetries opts) + 1, status := failed,
            error := Some m\<rparr>,
          calls = backoff_trace opts (nat (maxRetries opts)) @ [CallDownloadFile],
          rejected = False\<rparr>"
proof -
  define k where "k = nat (maxRetries opts)"
  have k: "int k \<le> maxRetries opts" "maxRetries opts < int (Suc k)"
    using assms(1) by (simp_all add: k_def)
  have before: "\<forall>j<k. \<exists>e. outs j = Throws e \<and> e \<noteq> Unconvertible" using assms(2) k by auto
  obtain lastError err where
    "retry_run opts outs (AwaitTransfer 0 None) (r\<lparr>attempts := attempts r + 1\<rparr>) [] =
     retry_run opts outs (AwaitTransfer k lastError)
       (r\<lparr>attempts := attempts r + 1, attempts := attempts (r\<lparr>attempts := attempts r + 1\<rparr>) + k,
          error := err\<rparr>) (backoff_trace opts k)"
    using retry_run_failures[OF k(1) before, of "r\<lparr>attempts := attempts r + 1\<rparr>"] by auto
  then show ?thesis
    using retry_run_exhausted[of outs k e m opts] assms(1,3,4) k
    by (cases r) (simp add: downloadWithRetry_enter k_def[symmetric])
qed

lemma downloadWithRetry_throws:
  assumes "int k \<le> maxRetries opts" and "\<forall>j<k. \<exists>e. outs j = Throws e \<and> e \<noteq> Unconvertible"
    and "outs k = Throws Unconvertible"
  shows "\<exists>err. downloadWithRetry opts outs r =
         \<lparr>request = r\<lparr>attempts := attempts r + k + 1, error := err\<rparr>,
          calls = backoff_trace opts k @ [CallDownloadFile], rejected = True\<rparr>"
proof -
  have M: "0 \<le> maxRetries opts" using assms(1) by linarith
  obtain lastError err where
    "retry_run opts outs (AwaitTransfer 0 None) (r\<lparr>attempts := attempts r + 1\<rparr>) [] =
     retry_run opts outs (AwaitTransfer k lastError)
       (r\<lparr>attempts := attempts r + 1, attempts := attempts (r\<lparr>attempts := attempts r + 1\<rparr>) + k,
          error := err\<rparr>) (backoff_trace opts k)"
    using retry_run_failures[OF assms(1,2), of "r\<lparr>attempts := attempts r + 1\<rparr>"] by auto
  then have "downloadWithRetry opts outs r =
         \<lparr>request = r\<lparr>attempts := attempts r + k + 1, error := err\<rparr>,
          calls = backoff_trace opts k @ [CallDownloadFile], rejected = True\<rparr>"
    using retry_run_throws[of outs k opts] assms(3) M
    by (cases r) (simp add: downloadWithRetry_enter)
  then show ?thesis by blast
qed

text \<open>
  How a sequence of outcomes ends within the first \<open>M + 1\<close> attempts: with a first
  success, with a first value the \<^verbatim>\<open>catch\<close> clause cannot convert, or with failures the
  \<^verbatim>\<open>catch\<close> clause takes throughout.
\<close>

lemma outcome_cases:
  "(\<exists>k. int k \<le> (M::int) \<and> (\<forall>j<k. \<exists>e. outs j = Throws e \<and> e \<noteq> Unconvertible) \<and> outs k = Ok)
   \<or> (\<exists>k. int k \<le> M \<and> (\<forall>j<k. \<exists>e. outs j = Throws e \<and> e \<noteq> Unconvertible)
          \<and> outs k = Throws Unconvertible)
   \<or> (\<forall>j. int j \<le> M \<longrightarrow> (\<exists>e. outs j = Throws e \<and> e \<noteq> Unconvertible))"
proof (cases "\<exists>j. int j \<le> M \<and> (outs j = Ok \<or> outs j = Throws Unconvertible)")
  case True
  define k where "k = (LEAST j. int j \<le> M \<and> (outs j = Ok \<or> outs j = Throws Unconvertible))"
  have k: "int k \<le> M \<and> (outs k = Ok \<or> outs k = Throws Unconvertible)"
    unfolding k_def using True by (rule LeastI_ex)
  have "\<exists>e. outs j = Throws e \<and> e \<noteq> Unconvertible" if "j < k" for j
  proof -
    have "\<not> (int j \<le> M \<and> (outs j = Ok \<or> outs j = Throws Unconvertible))"
      using that not_less_Least k_def by blast
    moreover have "int j \<le> M" using that k by linarith
    ultimately have "outs j \<noteq> Ok" "outs j \<noteq> Throws Unconvertible" by blast+
    then show ?thesis by (cases "outs j") auto
  qed
  then show ?thesis using k by blast
next
  case False
  have "\<exists>e. outs j = Throws e \<and> e \<noteq> Unconvertible" if "int j \<le> M" for j
  proof -
    have "outs j \<noteq> Ok" "outs j \<noteq> Throws Unconvertible" using False that by blast+
    then show ?thesis by (cases "outs j") auto
  qed
  then show ?thesis by blast
qed

text \<open>The engine's exit in each of the three cases.\<close>

lemma downloadWithRetry_exit:
  assumes M: "0 \<le> maxRetries opts"
  shows "(\<exists>k. int k \<le> maxRetries opts
            \<and> downloadWithRetry opts outs r =
                \<lparr>request = r\<lparr>attempts := attempts r + k + 1, status := success, error := None\<rparr>,
                 calls = backoff_trace opts k @ [CallDownloadFile], rejected = False\<rparr>)
       \<or> (\<exists>k err. int k \<le> maxRetries opts \<and> outs k = Throws Unconvertible
            \<and> downloadWithRetry opts outs r =
                \<lparr>request = r\<lparr>attempts := attempts r + k + 1, error := err\<rparr>,
                 calls = backoff_trace opts k @ [CallDownloadFile], rejected = True\<rparr>)
       \<or> (\<exists>e m. outs (nat (maxRetries opts)) = Throws e \<and> message_of e = Some m
            \<and> downloadWithRetry opts outs r =
                \<lparr>request = r\<lparr>attempts := attempts r + nat (maxRetries opts) + 1, status := failed,
                   error := Some m\<rparr>,
                 calls = backoff_trace opts (nat (maxRetries opts)) @ [CallDownloadFile],
                 rejected = False\<rparr>)"
proof -
  from outcome_cases[of "maxRetries opts" outs]
  consider
    (ok) k where "int k \<le> maxRetries opts" "\<forall>j<k. \<exists>e. outs j = Throws e \<and> e \<noteq> Unconvertible"
      "outs k = Ok"
  | (bad) k where "int k \<le> maxRetries opts" "\<forall>j<k. \<exists>e. outs j = Throws e \<and> e \<noteq> Unconvertible"
      "outs k = Throws Unconvertible"
  | (all) "\<forall>j. int j \<le> maxRetries opts \<longrightarrow> (\<exists>e. outs j = Throws e \<and> e \<noteq> Unconvertible)"
    by blast
  then show ?thesis
  proof cases
    case ok
    from downloadWithRetry_succeeds[OF ok, of r] ok(1) show ?thesis by blast
  next
    case bad
    from downloadWithRetry_throws[OF bad, of r] bad(1,3) show ?thesis by blast
  next
    case all
    have "int (nat (maxRetries opts)) \<le> maxRetries opts" using M by simp
    with all obtain e where e: "outs (nat (maxRetries opts)) = Throws e" "e \<noteq> Unconvertible" by blast
    then obtain m where m: "message_of e = Some m" using message_of_Some by blast
    from downloadWithRetry_exhausted[OF M all e(1) m, of r] e(1) m show ?thesis by blast
  qed
qed

text \<open>
  C2. For a request driven by the retry engine with \<open>maxRetries \<ge> 0\<close> (its attempts at 0,
  as the orchestrator builds it): if it ends failed, its attempts field is
  \<open>maxRetries + 1\<close>; if attempt number \<open>k\<close> is the first to succeed, with
  \<open>1 \<le> k \<le> maxRetries + 1\<close>, its attempts field is \<open>k\<close>, its status is success and its
  error field is cleared.

  An attempt fails when \<^verbatim>\<open>downloadFile\<close> throws and the \<^verbatim>\<open>catch\<close> clause takes what was
  thrown. A request ends failed when the engine leaves it with status failed: by
  returning, or in any way at all when the request did not enter as failed (the
  orchestrator passes it as downloading); the engine has then returned. The last part
  is the one remaining exit, where the \<^verbatim>\<open>catch\<close> clause itself throws: the promise of the
  engine is rejected, the status is the one the request entered with, and the attempts
  field counts the attempts up to the one whose thrown value could not be converted.
\<close>

theorem downloadWithRetry_attempts:
  assumes "0 \<le> maxRetries opts" and "attempts r = 0"
  shows "(status (request (downloadWithRetry opts outs r)) = failed
            \<and> (\<not> rejected (downloadWithRetry opts outs r) \<or> status r \<noteq> failed) \<longrightarrow>
            int (attempts (request (downloadWithRetry opts outs r))) = maxRetries opts + 1
            \<and> \<not> rejected (downloadWithRetry opts outs r))
       \<and> (\<forall>k. 1 \<le> k \<and> int k \<le> maxRetries opts + 1
              \<and> (\<forall>j<k - 1. \<exists>e. outs j = Throws e \<and> e \<noteq> Unconvertible) \<and> outs (k - 1) = Ok \<longrightarrow>
            attempts (request (downloadWithRetry opts outs r)) = k
            \<and> status (request (downloadWithRetry opts outs r)) = success
            \<and> error (request (downloadWithRetry opts outs r)) = None
            \<and> \<not> rejected (downloadWithRetry opts outs r))
       \<and> (rejected (downloadWithRetry opts outs r) \<longrightarrow>
            status (request (downloadWithRetry opts outs r)) = status r
            \<and> 1 \<le> attempts (request (downloadWithRetry opts outs r))
            \<and> int (attempts (request (downloadWithRetry opts outs r))) \<le> maxRetries opts + 1
            \<and> outs (attempts (request (downloadWithRetry opts outs r)) - 1) = Throws Unconvertible)"
proof (intro conjI allI impI)
  assume f: "status (request (downloadWithRetry opts outs r)) = failed
            \<and> (\<not> rejected (downloadWithRetry opts outs r) \<or> status r \<noteq> failed)"
  from downloadWithRetry_exit[OF assms(1), of outs r] f assms
  show "int (attempts (request (downloadWithRetry opts outs r))) = maxRetries opts + 1"
    and "\<not> rejected (downloadWithRetry opts outs r)"
    by auto
next
  fix k
  assume k: "1 \<le> k \<and> int k \<le> maxRetries opts + 1
              \<and> (\<forall>j<k - 1. \<exists>e. outs j = Throws e \<and> e \<noteq> Unconvertible) \<and> outs (k - 1) = Ok"
  then have "int (k - 1) \<le> maxRetries opts" by linarith
  from downloadWithRetry_succeeds[OF this, of outs r] k assms(2)
  show "attempts (request (downloadWithRetry opts outs r)) = k"
    and "status (request (downloadWithRetry opts outs r)) = success"
    and "error (request (downloadWithRetry opts outs r)) = None"
    and "\<not> rejected (downloadWithRetry opts outs r)"
    by simp_all
next
  assume rj: "rejected (downloadWithRetry opts outs r)"
  from downloadWithRetry_exit[OF assms(1), of outs r] rj
  obtain k err where k: "int k \<le> maxRetries opts" "outs k = Throws Unconvertible"
    "downloadWithRetry opts outs r =
       \<lparr>request = r\<lparr>attempts := attempts r + k + 1, error := err\<rparr>,
        calls = backoff_trace opts k @ [CallDownloadFile], rejected = True\<rparr>"
    by auto
  show "status (request (downloadWithRetry opts outs r)) = status r"
    and "1 \<le> attempts (request (downloadWithRetry opts outs r))"
    and "int (attempts (request (downloadWithRetry opts outs r))) \<le> maxRetries opts + 1"
    and "outs (attempts (request (downloadWithRetry opts outs r)) - 1) = Throws Unconvertible"
    using k assms(2) by simp_all
qed

theorem downloadWithRetry_attempts_witness:
  "status (request (downloadWithRetry \<lparr>concurrency = 1, maxRetries = 2, retryDelayMs = 100, onProgress = False\<rparr>
            (\<lambda>k. Throws (ErrorInstance ''HTTP 404''))
            \<lparr>request_id = ''t1'', url = ''https://x/y.png'', filename = ''y.png'', status = downloading,
              attempts = 0, error = None\<rparr>)) = failed
   \<and> attempts (request (downloadWithRetry \<lparr>concurrency = 1, maxRetries = 2, retryDelayMs = 100, onProgress = False\<rparr>
            (\<lambda>k. Throws (ErrorInstance ''HTTP 404''))
            \<lparr>request_id = ''t1'', url = ''https://x/y.png'', filename = ''y.png'', status = downloading,
              attempts = 0, error = None\<rparr>)) = 3
   \<and> attempts (request (downloadWithRetry \<lparr>concurrency = 1, maxRetries = 2, retryDelayMs = 100, onProgress = False\<rparr>
            (\<lambda>k. if k = 0 then Throws (ErrorInstance ''HTTP 500'') else Ok)
            \<lparr>request_id = ''t1'', url = ''https://x/y.png'', filename = ''y.png'', status = downloading,
              attempts = 0, error = None\<rparr>)) = 2
   \<and> rejected (downloadWithRetry \<lparr>concurrency = 1, maxRetries = 2, retryDelayMs = 100, onProgress = False\<rparr>
            (\<lambda>k. if k = 0 then Throws (OtherValue ''offline'') else Throws Unconvertible)
            \<lparr>request_id = ''t1'', url = ''https://x/y.png'', filename = ''y.png'', status = downloading,
              attempts = 0, error = None\<rparr>)
   \<and> attempts (request (downloadWithRetry \<lparr>concurrency = 1, maxRetries = 2, retryDelayMs = 100, onProgress = False\<rparr>
            (\<lambda>k. if k = 0 then Throws (OtherValue ''offline'') else Throws Unconvertible)
            \<lparr>request_id = ''t1'', url = ''https://x/y.png'', filename = ''y.png'', status = downloading,
              attempts = 0, error = None\<rparr>)) = 2
   \<and> status (request (downloadWithRetry \<lparr>concurrency = 1, maxRetries = 2, retryDelayMs = 100, onProgress = False\<rparr>
            (\<lambda>k. if k = 0 then Throws (OtherValue ''offline'') else Throws Unconvertible)
            \<lparr>request_id = ''t1'', url = ''https://x/y.png'', filename = ''y.png'', status = downloading,
              attempts = 0, error = None\<rparr>)) = downloading"
  using downloadWithRetry_attempts
    [of "\<lparr>concurrency = 1, maxRetries = 2, retryDelayMs = 100, onProgress = False\<rparr>"
        "\<lparr>request_id = ''t1'', url = ''https://x/y.png'', filename = ''y.png'', status = downloading,
              attempts = 0, error = None\<rparr>"
        "\<lambda>k. Throws (ErrorInstance ''HTTP 404'')"]
    downloadWithRetry_attempts
    [of "\<lparr>concurrency = 1, maxRetries = 2, retryDelayMs = 100, onProgress = False\<rparr>"
        "\<lparr>request_id = ''t1'', url = ''https://x/y.png'', filename = ''y.png'', status = downloading,
              attempts = 0, error = None\<rparr>"
        "\<lambda>k. if k = 0 then Throws (ErrorInstance ''HTTP 500'') else Ok"]
    downloadWithRetry_attempts
    [of "\<lparr>concurrency = 1, maxRetries = 2, retryDelayMs = 100, onProgress = False\<rparr>"
        "\<lparr>request_id = ''t1'', url = ''https://x/y.png'', filename = ''y.png'', status = downloading,
              attempts = 0, error = None\<rparr>"
        "\<lambda>k. if k = 0 then Throws (OtherValue ''offline'') else Throws Unconvertible"]
  by (simp add: downloadWithRetry_def loop_head_def transfer_settled_def finish_def retry_run.simps Let_def)






text \<open>
  C10. With \<open>maxRetries \<ge> 0\<close>, a request that ends failed has its error field set to the
  message of what its last attempt, number \<open>maxRetries + 1\<close>, threw: the \<^verbatim>\<open>message\<close> of an
  instance of \<^verbatim>\<open>Error\<close>, and the string \<^verbatim>\<open>String\<close> gives for any other value. The
  reason: the \<^verbatim>\<open>catch\<close> clause stores this message each time it takes a thrown value,
  and the exit keeps a stored message, so the fallback text is not used. (A request
  ends failed as said under C2.)
\<close>

theorem terminal_failure_error:
  assumes "0 \<le> maxRetries opts"
  shows "(status (request (downloadWithRetry opts outs r)) = failed
            \<and> (\<not> rejected (downloadWithRetry opts outs r) \<or> status r \<noteq> failed) \<longrightarrow>
            (\<exists>m. (outs (nat (maxRetries opts)) = Throws (ErrorInstance m)
                     \<or> outs (nat (maxRetries opts)) = Throws (OtherValue m))
                 \<and> error (request (downloadWithRetry opts outs r)) = Some m))
       \<and> (\<forall>attempt lastError m r'.
            error (fst (transfer_settled opts attempt lastError (Throws (ErrorInstance m)) r')) = Some m
            \<and> error (fst (transfer_settled opts attempt lastError (Throws (OtherValue m)) r')) = Some m)
       \<and> (\<forall>lastError r' m. error r' = Some m \<longrightarrow> error (finish lastError r') = Some m)"
proof (intro conjI allI impI)
  assume f: "status (request (downloadWithRetry opts outs r)) = failed
            \<and> (\<not> rejected (downloadWithRetry opts outs r) \<or> status r \<noteq> failed)"
  from downloadWithRetry_exit[OF assms, of outs r] f
  obtain e m where e: "outs (nat (maxRetries opts)) = Throws e" "message_of e = Some m"
    "error (request (downloadWithRetry opts outs r)) = Some m"
    by auto
  have "e = ErrorInstance m \<or> e = OtherValue m" using e(2) by (cases e) simp_all
  then show "\<exists>m. (outs (nat (maxRetries opts)) = Throws (ErrorInstance m)
                     \<or> outs (nat (maxRetries opts)) = Throws (OtherValue m))
                 \<and> error (request (downloadWithRetry opts outs r)) = Some m"
    using e(1,3) by blast
next
  fix attempt lastError m r'
  show "error (fst (transfer_settled opts attempt lastError (Throws (ErrorInstance m)) r')) = Some m"
    by (simp add: transfer_settled_def finish_def Let_def)
  show "error (fst (transfer_settled opts attempt lastError (Throws (OtherValue m)) r')) = Some m"
    by (simp add: transfer_settled_def finish_def Let_def)
next
  fix lastError and r' :: DownloadRequest and m
  assume "error r' = Some m"
  then show "error (finish lastError r') = Some m" by (simp add: finish_def)
qed

theorem terminal_failure_error_witness:
  "status (request (downloadWithRetry \<lparr>concurrency = 1, maxRetries = 1, retryDelayMs = 100, onProgress = False\<rparr>
          (\<lambda>k. if k = 0 then Throws (OtherValue ''offline'') else downloadFile (http_error 503))
          \<lparr>request_id = ''t1'', url = ''https://x/y.png'', filename = ''y.png'', status = downloading,
            attempts = 0, error = None\<rparr>)) = failed
   \<and> error (request (downloadWithRetry \<lparr>concurrency = 1, maxRetries = 1, retryDelayMs = 100, onProgress = False\<rparr>
          (\<lambda>k. if k = 0 then Throws (OtherValue ''offline'') else downloadFile (http_error 503))
          \<lparr>request_id = ''t1'', url = ''https://x/y.png'', filename = ''y.png'', status = downloading,
            attempts = 0, error = None\<rparr>)) = Some ''HTTP 503''
   \<and> status (request (downloadWithRetry \<lparr>concurrency = 1, maxRetries = 1, retryDelayMs = 100, onProgress = False\<rparr>
          (\<lambda>k. if k = 0 then Throws (ErrorInstance ''HTTP 500'') else Throws (OtherValue ''offline''))
          \<lparr>request_id = ''t1'', url = ''https://x/y.png'', filename = ''y.png'', status = downloading,
            attempts = 0, error = None\<rparr>)) = failed
   \<and> error (request (downloadWithRetry \<lparr>concurrency = 1, maxRetries = 1, retryDelayMs = 100, onProgress = False\<rparr>
          (\<lambda>k. if k = 0 then Throws (ErrorInstance ''HTTP 500'') else Throws (OtherValue ''offline''))
          \<lparr>request_id = ''t1'', url = ''https://x/y.png'', filename = ''y.png'', status = downloading,
            attempts = 0, error = None\<rparr>)) = Some ''offline''"
proof -
  have d: "downloadFile (http_error 503) = Throws (ErrorInstance ''HTTP 503'')"
    by code_simp
  show ?thesis
    using terminal_failure_error
      [of "\<lparr>concurrency = 1, maxRetries = 1, retryDelayMs = 100, onProgress = False\<rparr>"
          "\<lambda>k. if k = 0 then Throws (OtherValue ''offline'') else downloadFile (http_error 503)"
          "\<lparr>request_id = ''t1'', url = ''https://x/y.png'', filename = ''y.png'', status = downloading,
              attempts = 0, error = None\<rparr>"]
      terminal_failure_error
      [of "\<lparr>concurrency = 1, maxRetries = 1, retryDelayMs = 100, onProgress = False\<rparr>"
          "\<lambda>k. if k = 0 then Throws (ErrorInstance ''HTTP 500'') else Throws (OtherValue ''offline'')"
          "\<lparr>request_id = ''t1'', url = ''https://x/y.png'', filename = ''y.png'', status = downloading,
              attempts = 0, error = None\<rparr>"]
    by (simp add: d downloadWithRetry_def loop_head_def transfer_settled_def finish_def retry_run.simps Let_def)
qed

section \<open>The empty batch\<close>

text \<open>
  C5. For the empty URL list \<^verbatim>\<open>runDownloadTask\<close> returns the result with no successes
  and no failures whatever the options and the events are, and no snapshot has been
  delivered to the observer.
\<close>

theorem empty_batch:
  "runDownloadTask URL_pathname ids [] options sched =
     (Fulfilled \<lparr>result_successes = [], result_failures = []\<rparr>, no_state)
   \<and> emitted (snd (runDownloadTask URL_pathname ids [] options sched)) = []"
  by (simp add: runDownloadTask_def no_state_def)


theorem empty_batch_witness:
  "runDownloadTask (\<lambda>u. None) (\<lambda>i. ''t'') []
     \<lparr>opt_concurrency = Some 2, opt_maxRetries = None, opt_retryDelayMs = None, opt_onProgress = True\<rparr>
     [TimerFired 0, Resume 1]
   = (Fulfilled \<lparr>result_successes = [], result_failures = []\<rparr>, no_state)"
  using empty_batch
    [of "\<lambda>u. None" "\<lambda>i. ''t''"
        "\<lparr>opt_concurrency = Some 2, opt_maxRetries = None, opt_retryDelayMs = None, opt_onProgress = True\<rparr>"
        "[TimerFired 0, Resume 1]"]
  by simp

section \<open>The orchestrator keeps its invariants\<close>
subsection \<open>The retry engine on one record\<close>

lemma url_finish [simp]: "url (finish lastError r) = url r"
  by (simp add: finish_def)

lemma url_loop_head [simp]: "url (fst (loop_head opts attempt lastError r)) = url r"
  by (simp add: loop_head_def)

lemma url_transfer_settled [simp]: "url (fst (transfer_settled opts attempt lastError out r)) = url r"
  by (cases out) (simp_all add: transfer_settled_def Let_def split: option.splits)

lemma consistent_loop_head:
  "status r = downloading \<Longrightarrow>
   consistent (fst (loop_head opts attempt lastError r)) (snd (loop_head opts attempt lastError r))"
  by (simp add: loop_head_def consistent_def finish_def)

lemma consistent_transfer_settled:
  "consistent (fst (transfer_settled opts attempt lastError out r))
     (snd (transfer_settled opts attempt lastError out r))"
  if "status r = downloading"
  using that
  by (cases out) (simp_all add: transfer_settled_def consistent_def finish_def Let_def split: option.splits)

lemma consistent_not_pending: "consistent r sp \<Longrightarrow> status r \<noteq> pending"
  by (auto simp: consistent_def split: if_splits)

lemma consistent_downloading: "consistent r sp \<Longrightarrow> status r = downloading \<Longrightarrow> sp \<noteq> Returned"
  by (auto simp: consistent_def split: if_splits)

subsection \<open>What \<open>updateProgress\<close> changes\<close>

lemma updateProgress_fields [simp]:
  "requests (updateProgress opts st s) = requests s"
  "queue (updateProgress opts st s) = queue s"
  "active (updateProgress opts st s) = active s"
  "workers (updateProgress opts st s) = workers s"
  "rethrows (updateProgress opts st s) = rethrows s"
  "dispatched (updateProgress opts st s) = dispatched s"
  by (simp_all add: updateProgress_def Let_def)

lemma heap_updateProgress:
  "heap (updateProgress opts st s) = (if onProgress opts then heap s @ live s else heap s)"
  by (simp add: updateProgress_def Let_def)

lemma length_heap_updateProgress:
  "length (heap (updateProgress opts st s)) =
   (if onProgress opts then length (heap s) + length (requests s) else length (heap s))"
  by (simp add: heap_updateProgress live_def)

lemma nth_heap_updateProgress [simp]:
  "a < length (heap s) \<Longrightarrow> heap (updateProgress opts st s) ! a = heap s ! a"
  by (simp add: heap_updateProgress nth_append)

lemma emitted_updateProgress:
  "emitted (updateProgress opts st s) =
   (if onProgress opts
    then emitted s @
      [\<lparr>total = length (requests s),
        completed = length (filter (\<lambda>entry. status entry = success) (live s))
                  + length (filter (\<lambda>entry. status entry = failed) (live s)),
        successes = length (filter (\<lambda>entry. status entry = success) (live s)),
        failures = length (filter (\<lambda>entry. status entry = failed) (live s)),
        entries = [length (heap s) ..< length (heap s) + length (requests s)],
        snapshot_status = st\<rparr>]
    else emitted s)"
  by (simp add: updateProgress_def Let_def)

lemma filter_two_le:
  "length (filter (\<lambda>x. f x = (a::FileStatus)) xs) + length (filter (\<lambda>x. f x = b) xs) \<le> length xs"
  if "a \<noteq> b"
  using that by (induction xs) auto

lemma snapshots_ok_cong:
  "requests s' = requests s \<Longrightarrow> length (heap s') = length (heap s) \<Longrightarrow> emitted s' = emitted s \<Longrightarrow>
   snapshots_ok N s' = snapshots_ok N s"
  by (simp add: snapshots_ok_def)

lemma snapshots_ok_updateProgress:
  assumes "snapshots_ok N s"
  shows "snapshots_ok N (updateProgress opts st s)"
proof (cases "onProgress opts")
  case False
  then have "updateProgress opts st s = s" by (simp add: updateProgress_def)
  then show ?thesis using assms by simp
next
  case True
  have req: "requests s = [0 ..< N]" and le: "N \<le> length (heap s)"
    and old: "\<forall>snap \<in> set (emitted s).
           total snap = N \<and> completed snap = successes snap + failures snap
           \<and> completed snap \<le> total snap
           \<and> (\<forall>a \<in> set (entries snap). N \<le> a \<and> a < length (heap s))"
    using assms unfolding snapshots_ok_def by blast+
  have len: "length (heap (updateProgress opts st s)) = length (heap s) + N"
    using True req by (simp add: length_heap_updateProgress)
  have cnt: "length (filter (\<lambda>entry. status entry = success) (live s))
      + length (filter (\<lambda>entry. status entry = failed) (live s)) \<le> N"
    using filter_two_le[of success failed status "live s"] req by (simp add: live_def)
  have "total snap = N \<and> completed snap = successes snap + failures snap
           \<and> completed snap \<le> total snap
           \<and> (\<forall>a \<in> set (entries snap). N \<le> a \<and> a < length (heap (updateProgress opts st s)))"
    if snap: "snap \<in> set (emitted (updateProgress opts st s))" for snap
  proof -
    from snap True consider "snap \<in> set (emitted s)"
      | "snap = \<lparr>total = length (requests s),
        completed = length (filter (\<lambda>entry. status entry = success) (live s))
                  + length (filter (\<lambda>entry. status entry = failed) (live s)),
        successes = length (filter (\<lambda>entry. status entry = success) (live s)),
        failures = length (filter (\<lambda>entry. status entry = failed) (live s)),
        entries = [length (heap s) ..< length (heap s) + length (requests s)],
        snapshot_status = st\<rparr>"
      by (auto simp: emitted_updateProgress)
    then show ?thesis
    proof cases
      case 1
      then show ?thesis using old len by fastforce
    next
      case 2
      then show ?thesis using cnt req le len by simp
    qed
  qed
  moreover have "requests (updateProgress opts st s) = [0 ..< N]" using req by simp
  moreover have "N \<le> length (heap (updateProgress opts st s))" using le len by simp
  ultimately show ?thesis unfolding snapshots_ok_def by blast
qed

lemma shape_ok_bounds:
  assumes "shape_ok urls s"
  shows "a \<in> set (queue s) \<Longrightarrow> a < length urls"
    and "a \<in> set (dispatched s) \<Longrightarrow> a < length urls"
    and "a < length urls \<Longrightarrow> a < length (heap s)"
    and "a \<in> set (queue s) \<Longrightarrow> a < length (heap s)"
    and "a \<in> set (dispatched s) \<Longrightarrow> a < length (heap s)"
    and "a \<in> set (queue s) \<Longrightarrow> a \<notin> set (dispatched s)"
    and "distinct (queue s)" and "distinct (dispatched s)"
proof -
  have app: "dispatched s @ queue s = [0 ..< length urls]"
    using assms unfolding shape_ok_def by simp
  then have "set (dispatched s @ queue s) = set [0 ..< length urls]" by simp
  then have eq: "set (dispatched s) \<union> set (queue s) = {0 ..< length urls}" by simp
  have "distinct (dispatched s @ queue s)" using app by simp
  then show "distinct (queue s)" and "distinct (dispatched s)"
    and "a \<in> set (queue s) \<Longrightarrow> a \<notin> set (dispatched s)" by auto
  have le: "length urls \<le> length (heap s)" using assms unfolding shape_ok_def by simp
  show q: "a \<in> set (queue s) \<Longrightarrow> a < length urls"
  proof -
    assume "a \<in> set (queue s)"
    then have "a \<in> {0 ..< length urls}" using eq by blast
    then show ?thesis by simp
  qed
  show d: "a \<in> set (dispatched s) \<Longrightarrow> a < length urls"
  proof -
    assume "a \<in> set (dispatched s)"
    then have "a \<in> {0 ..< length urls}" using eq by blast
    then show ?thesis by simp
  qed
  show "a < length urls \<Longrightarrow> a < length (heap s)" using le by simp
  show "a \<in> set (queue s) \<Longrightarrow> a < length (heap s)" using q le by simp
  show "a \<in> set (dispatched s) \<Longrightarrow> a < length (heap s)" using d le by simp
qed

text \<open>Both predicates look at the records of the requests only.\<close>

lemma shape_ok_cong:
  assumes "shape_ok urls s"
    and "queue s' = queue s" "dispatched s' = dispatched s"
    and "length (heap s) \<le> length (heap s')"
    and "\<And>a. a < length urls \<Longrightarrow> heap s' ! a = heap s ! a"
  shows "shape_ok urls s'"
proof -
  note b = shape_ok_bounds[OF assms(1)]
  have "\<forall>a \<in> set (queue s'). status (heap s' ! a) = pending"
    using assms b(1) unfolding shape_ok_def by simp
  moreover have "\<forall>a < length urls. url (heap s' ! a) = urls ! a"
    using assms unfolding shape_ok_def by simp
  moreover have "length urls \<le> length (heap s')"
    using assms unfolding shape_ok_def by simp
  ultimately show ?thesis using assms unfolding shape_ok_def by simp
qed

lemma workers_ok_cong:
  assumes "shape_ok urls s" "workers_ok ws s"
    and "queue s' = queue s" "dispatched s' = dispatched s"
    and "\<And>a. a < length urls \<Longrightarrow> heap s' ! a = heap s ! a"
  shows "workers_ok ws s'"
proof -
  have same: "heap s' ! a = heap s ! a" if "a \<in> set (dispatched s)" for a
    using shape_ok_bounds(2)[OF assms(1) that] assms(5) by blast
  have w1: "\<forall>i < length ws. case ws ! i of
         Finished \<Rightarrow> queue s = []
       | Busy a sp \<Rightarrow> a \<in> set (dispatched s) \<and> consistent (heap s ! a) sp"
    using assms(2) unfolding workers_ok_def by blast
  have "\<forall>i < length ws. case ws ! i of
         Finished \<Rightarrow> queue s' = []
       | Busy a sp \<Rightarrow> a \<in> set (dispatched s') \<and> consistent (heap s' ! a) sp"
  proof (intro allI impI)
    fix i assume "i < length ws"
    with w1 show "case ws ! i of
         Finished \<Rightarrow> queue s' = []
       | Busy a sp \<Rightarrow> a \<in> set (dispatched s') \<and> consistent (heap s' ! a) sp"
      by (cases "ws ! i") (auto simp: same assms(3,4))
  qed
  moreover have "\<forall>a \<in> set (dispatched s'). status (heap s' ! a) \<noteq> pending"
    using assms(2) unfolding workers_ok_def by (simp add: same assms(4))
  ultimately show ?thesis using assms(2) unfolding workers_ok_def by blast
qed

lemma held_ok_cong:
  assumes "shape_ok urls s" "held_ok ws s"
    and "dispatched s' = dispatched s" and "rethrows s' = rethrows s"
    and "\<And>a. a < length urls \<Longrightarrow> heap s' ! a = heap s ! a"
  shows "held_ok ws s'"
proof -
  have same: "heap s' ! a = heap s ! a" if "a \<in> set (dispatched s)" for a
    using shape_ok_bounds(2)[OF assms(1) that] assms(5) by blast
  show ?thesis using assms(2) unfolding held_ok_def by (simp add: same assms(3,4))
qed

lemma shape_ok_updateProgress:
  "shape_ok urls s \<Longrightarrow> shape_ok urls (updateProgress opts st s)"
  by (rule shape_ok_cong[where s = s])
     (simp_all add: length_heap_updateProgress shape_ok_bounds(3))

lemma workers_ok_updateProgress:
  "shape_ok urls s \<Longrightarrow> workers_ok ws s \<Longrightarrow> workers_ok ws (updateProgress opts st s)"
  by (rule workers_ok_cong[where s = s and urls = urls])
     (simp_all add: shape_ok_bounds(3))

lemma held_ok_updateProgress:
  "shape_ok urls s \<Longrightarrow> held_ok ws s \<Longrightarrow> held_ok ws (updateProgress opts st s)"
  by (rule held_ok_cong[where s = s and urls = urls])
     (simp_all add: shape_ok_bounds(3))


subsection \<open>Reading and establishing \<open>workers_ok\<close>\<close>

lemma workers_ok_Busy:
  assumes "workers_ok ws s" "i < length ws" "ws ! i = Busy a sp"
  shows "a \<in> set (dispatched s) \<and> consistent (heap s ! a) sp"
proof -
  have "\<forall>i < length ws. case ws ! i of
         Finished \<Rightarrow> queue s = []
       | Busy a sp \<Rightarrow> a \<in> set (dispatched s) \<and> consistent (heap s ! a) sp"
    using assms(1) unfolding workers_ok_def by (rule conjunct1)
  then have "case ws ! i of
         Finished \<Rightarrow> queue s = []
       | Busy a sp \<Rightarrow> a \<in> set (dispatched s) \<and> consistent (heap s ! a) sp"
    using assms(2) by blast
  then show ?thesis using assms(3) by simp
qed

lemma workers_ok_Finished:
  assumes "workers_ok ws s" "i < length ws" "ws ! i = Finished"
  shows "queue s = []"
proof -
  have "\<forall>i < length ws. case ws ! i of
         Finished \<Rightarrow> queue s = []
       | Busy a sp \<Rightarrow> a \<in> set (dispatched s) \<and> consistent (heap s ! a) sp"
    using assms(1) unfolding workers_ok_def by (rule conjunct1)
  then have "case ws ! i of
         Finished \<Rightarrow> queue s = []
       | Busy a sp \<Rightarrow> a \<in> set (dispatched s) \<and> consistent (heap s ! a) sp"
    using assms(2) by blast
  then show ?thesis using assms(3) by simp
qed

lemma workers_ok_distinct:
  "workers_ok ws s \<Longrightarrow> i < length ws \<Longrightarrow> j < length ws \<Longrightarrow> i \<noteq> j \<Longrightarrow>
   ws ! i = Busy a sp \<Longrightarrow> ws ! j \<noteq> Busy a sp'"
  unfolding workers_ok_def by blast

lemma workers_ok_dispatched:
  "workers_ok ws s \<Longrightarrow> a \<in> set (dispatched s) \<Longrightarrow> status (heap s ! a) \<noteq> pending"
  unfolding workers_ok_def by blast

lemma held_ok_dispatched:
  "held_ok ws s \<Longrightarrow> a \<in> set (dispatched s) \<Longrightarrow> status (heap s ! a) = downloading \<Longrightarrow>
   (\<exists>i < length ws. \<exists>sp. ws ! i = Busy a sp \<and> sp \<noteq> Returned) \<or> True \<in> set (rethrows s)"
  unfolding held_ok_def by blast

lemma held_okI:
  assumes "\<And>a. a \<in> set (dispatched s) \<Longrightarrow> status (heap s ! a) = downloading \<Longrightarrow>
             True \<notin> set (rethrows s) \<Longrightarrow>
             \<exists>i < length ws. \<exists>sp. ws ! i = Busy a sp \<and> sp \<noteq> Returned"
  shows "held_ok ws s"
  unfolding held_ok_def using assms by blast

lemma workers_okI:
  assumes "\<And>i a sp. i < length ws \<Longrightarrow> ws ! i = Busy a sp \<Longrightarrow>
             a \<in> set (dispatched s) \<and> consistent (heap s ! a) sp"
    and "\<And>i. i < length ws \<Longrightarrow> ws ! i = Finished \<Longrightarrow> queue s = []"
    and "\<And>i j a sp sp'. i < length ws \<Longrightarrow> j < length ws \<Longrightarrow> i \<noteq> j \<Longrightarrow>
             ws ! i = Busy a sp \<Longrightarrow> ws ! j \<noteq> Busy a sp'"
    and "\<And>a. a \<in> set (dispatched s) \<Longrightarrow> status (heap s ! a) \<noteq> pending"
  shows "workers_ok ws s"
proof -
  have "case ws ! i of
         Finished \<Rightarrow> queue s = []
       | Busy a sp \<Rightarrow> a \<in> set (dispatched s) \<and> consistent (heap s ! a) sp"
    if "i < length ws" for i
    using assms(1,2)[OF that] by (cases "ws ! i") auto
  then show ?thesis unfolding workers_ok_def using assms(3,4) by blast
qed

subsection \<open>A worker's request changes\<close>

lemma workers_ok_cell_update:
  assumes sh: "shape_ok urls s" and wo: "workers_ok ws s"
    and w: "w < length ws" "ws ! w = Busy item sp"
    and c: "consistent r' sp'"
    and q: "queue s' = queue s" and d: "dispatched s' = dispatched s"
    and at: "heap s' ! item = r'"
    and other: "\<And>a. a < length urls \<Longrightarrow> a \<noteq> item \<Longrightarrow> heap s' ! a = heap s ! a"
  shows "workers_ok (ws[w := Busy item sp']) s'"
proof (rule workers_okI)
  note b = shape_ok_bounds[OF sh]
  have item: "item \<in> set (dispatched s)" using workers_ok_Busy[OF wo w] by simp
  have neq: "a \<noteq> item" if "i < length ws" "i \<noteq> w" "ws ! i = Busy a sp2" for i a sp2
    using workers_ok_distinct[OF wo that(1) w(1) that(2) that(3)] w(2) by auto
  {
    fix i a sp2
    assume i: "i < length (ws[w := Busy item sp'])" and eq: "ws[w := Busy item sp'] ! i = Busy a sp2"
    show "a \<in> set (dispatched s') \<and> consistent (heap s' ! a) sp2"
    proof (cases "i = w")
      case True
      then have "a = item" "sp2 = sp'" using eq w(1) by simp_all
      then show ?thesis using item c at d by simp
    next
      case False
      then have old: "ws ! i = Busy a sp2" and il: "i < length ws" using eq i by simp_all
      have "a \<noteq> item" using neq[OF il False old] .
      moreover have "a \<in> set (dispatched s)" "consistent (heap s ! a) sp2"
        using workers_ok_Busy[OF wo il old] by simp_all
      ultimately show ?thesis using other b(2) d by simp
    qed
  }
  {
    fix i
    assume i: "i < length (ws[w := Busy item sp'])" and eq: "ws[w := Busy item sp'] ! i = Finished"
    have "i \<noteq> w" using eq w(1) by auto
    then have "ws ! i = Finished" "i < length ws" using eq i by simp_all
    then show "queue s' = []" using workers_ok_Finished[OF wo] q by simp
  }
  {
    fix i j a sp2 sp3
    assume i: "i < length (ws[w := Busy item sp'])" and j: "j < length (ws[w := Busy item sp'])"
      and ij: "i \<noteq> j" and eq: "ws[w := Busy item sp'] ! i = Busy a sp2"
    have il: "i < length ws" and jl: "j < length ws" using i j by simp_all
    show "ws[w := Busy item sp'] ! j \<noteq> Busy a sp3"
    proof (cases "i = w")
      case True
      then have a: "a = item" using eq w(1) by simp
      have "j \<noteq> w" using True ij by simp
      then show ?thesis
        using workers_ok_distinct[OF wo w(1) jl _ w(2), of sp3] True ij a by simp
    next
      case False
      then have old: "ws ! i = Busy a sp2" using eq by simp
      show ?thesis
      proof (cases "j = w")
        case True
        then show ?thesis using neq[OF il False old] w(1) by simp
      next
        case jw: False
        then show ?thesis using workers_ok_distinct[OF wo il jl ij old, of sp3] by simp
      qed
    qed
  }
  {
    fix a
    assume a: "a \<in> set (dispatched s')"
    then have ad: "a \<in> set (dispatched s)" using d by simp
    show "status (heap s' ! a) \<noteq> pending"
    proof (cases "a = item")
      case True
      then show ?thesis using consistent_not_pending[OF c] at by simp
    next
      case False
      then show ?thesis using workers_ok_dispatched[OF wo ad] other b(2)[OF ad] by simp
    qed
  }
qed

lemma held_ok_cell_update:
  assumes sh: "shape_ok urls s" and wo: "workers_ok ws s" and ho: "held_ok ws s"
    and w: "w < length ws" "ws ! w = Busy item sp"
    and c: "consistent r' sp'"
    and d: "dispatched s' = dispatched s" and rt: "rethrows s' = rethrows s"
    and at: "heap s' ! item = r'"
    and other: "\<And>a. a < length urls \<Longrightarrow> a \<noteq> item \<Longrightarrow> heap s' ! a = heap s ! a"
  shows "held_ok (ws[w := Busy item sp']) s'"
proof (rule held_okI)
  note b = shape_ok_bounds[OF sh]
  fix a
  assume a: "a \<in> set (dispatched s')" and dl: "status (heap s' ! a) = downloading"
    and nf: "True \<notin> set (rethrows s')"
  have ad: "a \<in> set (dispatched s)" using a d by simp
  show "\<exists>i < length (ws[w := Busy item sp']). \<exists>sp. ws[w := Busy item sp'] ! i = Busy a sp \<and> sp \<noteq> Returned"
  proof (cases "a = item")
    case True
    then have "sp' \<noteq> Returned" using consistent_downloading[OF c] dl at by simp
    then show ?thesis using True w(1) by (intro exI[of _ w]) simp
  next
    case False
    then have "status (heap s ! a) = downloading" using dl other b(2)[OF ad] by simp
    then obtain i sp2 where i: "i < length ws" "ws ! i = Busy a sp2" "sp2 \<noteq> Returned"
      using held_ok_dispatched[OF ho ad] nf rt by auto
    have "i \<noteq> w" using i(2) w(2) False by auto
    then show ?thesis using i by (intro exI[of _ i]) simp
  qed
qed

lemma shape_ok_cell_update:
  assumes sh: "shape_ok urls s" and item: "item \<in> set (dispatched s)"
    and q: "queue s' = queue s" and d: "dispatched s' = dispatched s"
    and len: "length (heap s') = length (heap s)"
    and u: "url (heap s' ! item) = url (heap s ! item)"
    and other: "\<And>a. a < length urls \<Longrightarrow> a \<noteq> item \<Longrightarrow> heap s' ! a = heap s ! a"
  shows "shape_ok urls s'"
proof -
  note b = shape_ok_bounds[OF sh]
  have "status (heap s' ! a) = pending" if "a \<in> set (queue s')" for a
  proof -
    have aq: "a \<in> set (queue s)" using that q by simp
    then have "a \<noteq> item" using b(6) item by blast
    then show ?thesis using other b(1)[OF aq] sh aq unfolding shape_ok_def by simp
  qed
  moreover have "url (heap s' ! a) = urls ! a" if "a < length urls" for a
    using that u other sh unfolding shape_ok_def by (cases "a = item") auto
  ultimately show ?thesis using sh q d len unfolding shape_ok_def by simp
qed


subsection \<open>What \<open>processNext\<close> changes\<close>

lemma processNext_Nil: "queue s = [] \<Longrightarrow> processNext opts s = (s, Finished)"
  by (simp add: processNext_def)

lemma processNext_fields:
  assumes "queue s = item # rest"
  shows "requests (fst (processNext opts s)) = requests s"
    and "queue (fst (processNext opts s)) = rest"
    and "dispatched (fst (processNext opts s)) = dispatched s @ [item]"
    and "workers (fst (processNext opts s)) = workers s"
    and "active (fst (processNext opts s)) = active s + 1"
  by (simp_all add: processNext_def call_downloadWithRetry_def assms)

lemma processNext_heap:
  assumes "queue s = item # rest" "item < length (heap s)"
  shows "heap (fst (processNext opts s)) ! item =
           fst (loop_head opts 0 None ((heap s ! item)\<lparr>status := downloading\<rparr>))"
    and "snd (processNext opts s) =
           Busy item (snd (loop_head opts 0 None ((heap s ! item)\<lparr>status := downloading\<rparr>)))"
    and "\<And>a. a < length (heap s) \<Longrightarrow> a \<noteq> item \<Longrightarrow> heap (fst (processNext opts s)) ! a = heap s ! a"
    and "length (heap (fst (processNext opts s))) =
           length (heap s) + (if onProgress opts then length (requests s) else 0)"
  using assms
  by (simp_all add: processNext_def call_downloadWithRetry_def heap_updateProgress nth_append live_def)

lemma snapshots_ok_processNext:
  assumes "snapshots_ok N s"
  shows "snapshots_ok N (fst (processNext opts s))"
proof (cases "queue s")
  case Nil
  then show ?thesis using assms by (simp add: processNext_Nil)
next
  case (Cons item rest)
  define s1 where "s1 = s\<lparr>queue := rest, active := active s + 1,
                  heap := (heap s)[item := (heap s ! item)\<lparr>status := downloading\<rparr>]\<rparr>"
  have "snapshots_ok N s1" using assms snapshots_ok_cong[of s1 s N] by (simp add: s1_def)
  then have "snapshots_ok N (updateProgress opts Running s1)"
    by (rule snapshots_ok_updateProgress)
  moreover have "fst (processNext opts s) = fst (call_downloadWithRetry opts item (updateProgress opts Running s1))"
    using Cons by (simp add: processNext_def s1_def)
  ultimately show ?thesis
    using snapshots_ok_cong[of "fst (processNext opts s)" "updateProgress opts Running s1" N]
    by (simp add: call_downloadWithRetry_def)
qed

lemma shape_ok_processNext:
  assumes sh: "shape_ok urls s"
  shows "shape_ok urls (fst (processNext opts s))"
proof (cases "queue s")
  case Nil
  then show ?thesis using assms by (simp add: processNext_Nil)
next
  case (Cons item rest)
  note b = shape_ok_bounds[OF sh]
  have item: "item < length (heap s)" "item < length urls" using b(1,4)[of item] Cons by simp_all
  note f = processNext_fields[OF Cons, where opts = opts]
  note h = processNext_heap[OF Cons item(1), where opts = opts]
  have "item \<notin> set rest" using b(7) Cons by simp
  have 1: "length urls \<le> length (heap (fst (processNext opts s)))"
    using sh h(4) unfolding shape_ok_def by simp
  have 2: "dispatched (fst (processNext opts s)) @ queue (fst (processNext opts s)) = [0 ..< length urls]"
    using sh Cons f(2,3) unfolding shape_ok_def by simp
  have 3: "status (heap (fst (processNext opts s)) ! a) = pending"
    if "a \<in> set (queue (fst (processNext opts s)))" for a
  proof -
    have ar: "a \<in> set rest" using that f(2) by simp
    then have "a \<noteq> item" using \<open>item \<notin> set rest\<close> by blast
    moreover have aq: "a \<in> set (queue s)" using ar Cons by simp
    ultimately have "heap (fst (processNext opts s)) ! a = heap s ! a" using h(3) b(4) by blast
    then show ?thesis using sh aq unfolding shape_ok_def by simp
  qed
  have 4: "url (heap (fst (processNext opts s)) ! a) = urls ! a" if "a < length urls" for a
  proof (cases "a = item")
    case True
    then show ?thesis using h(1) sh that unfolding shape_ok_def by simp
  next
    case False
    then show ?thesis using h(3)[of a] b(3)[OF that] sh that unfolding shape_ok_def by simp
  qed
  show ?thesis unfolding shape_ok_def using 1 2 3 4 by blast
qed

subsection \<open>A worker takes its next state\<close>


lemma installs_append: "installs ws (length ws) wk (ws @ [wk])"
  by (auto simp: installs_def replaces_def nth_append)

lemma installs_update:
  "w < length ws \<Longrightarrow> ws ! w = Busy b Returned \<Longrightarrow> installs ws w wk (ws[w := wk])"
  by (auto simp: installs_def replaces_def)

lemma replaces_update: "w < length ws \<Longrightarrow> replaces ws w wk (ws[w := wk])"
  by (auto simp: replaces_def)

lemma installs_replaces: "installs ws k wk ws' \<Longrightarrow> replaces ws k wk ws'"
  by (simp add: installs_def)

lemma workers_ok_install_Finished:
  assumes sh: "shape_ok urls s" and wo: "workers_ok ws s" and ins: "replaces ws k Finished ws'"
    and q: "queue s = []"
  shows "workers_ok ws' s"
proof (rule workers_okI)
  have k: "k < length ws'" "ws' ! k = Finished"
    and others: "\<And>i. i < length ws' \<Longrightarrow> i \<noteq> k \<Longrightarrow> i < length ws \<and> ws' ! i = ws ! i"
    using ins unfolding replaces_def by blast+
  have old: "i < length ws \<and> ws ! i = Busy a sp" if "i < length ws'" "ws' ! i = Busy a sp" for i a sp
  proof -
    have "i \<noteq> k" using that k by auto
    then show ?thesis using others[OF that(1)] that(2) by simp
  qed
  show "a \<in> set (dispatched s) \<and> consistent (heap s ! a) sp"
    if "i < length ws'" "ws' ! i = Busy a sp" for i a sp
    using old[OF that] workers_ok_Busy[OF wo] by blast
  show "queue s = []" if "i < length ws'" "ws' ! i = Finished" for i by (rule q)
  show "ws' ! j \<noteq> Busy a sp'"
    if "i < length ws'" "j < length ws'" "i \<noteq> j" "ws' ! i = Busy a sp" for i j a sp sp'
  proof (cases "j = k")
    case True
    then show ?thesis using k by simp
  next
    case False
    have "ws ! j \<noteq> Busy a sp'"
      using workers_ok_distinct[OF wo _ _ that(3)] old[OF that(1,4)] others[OF that(2) False] by blast
    then show ?thesis using others[OF that(2) False] by simp
  qed
  show "status (heap s ! a) \<noteq> pending" if "a \<in> set (dispatched s)" for a
    using workers_ok_dispatched[OF wo that] .
qed

lemma held_ok_install:
  assumes sh: "shape_ok urls s" and ho: "held_ok ws s" and ins: "installs ws k wk ws'"
    and d': "dispatched s' = dispatched s \<or>
             (\<exists>item sp0. dispatched s' = dispatched s @ [item] \<and> wk = Busy item sp0
                 \<and> (status (heap s' ! item) = downloading \<longrightarrow> sp0 \<noteq> Returned))"
    and rt: "rethrows s' = rethrows s"
    and other: "\<And>a. a \<in> set (dispatched s) \<Longrightarrow> heap s' ! a = heap s ! a"
  shows "held_ok ws' s'"
proof (rule held_okI)
  have k: "k < length ws'" "ws' ! k = wk"
    and others: "\<And>i. i < length ws' \<Longrightarrow> i \<noteq> k \<Longrightarrow> i < length ws \<and> ws' ! i = ws ! i"
    and persist: "\<And>i a sp. i < length ws \<Longrightarrow> ws ! i = Busy a sp \<Longrightarrow> sp \<noteq> Returned \<Longrightarrow> i < length ws' \<and> i \<noteq> k"
    using ins unfolding installs_def replaces_def by blast+
  fix a
  assume a: "a \<in> set (dispatched s')" and dl: "status (heap s' ! a) = downloading"
    and nf: "True \<notin> set (rethrows s')"
  have old: "\<exists>i < length ws'. \<exists>sp. ws' ! i = Busy a sp \<and> sp \<noteq> Returned" if ad: "a \<in> set (dispatched s)"
  proof -
    have "status (heap s ! a) = downloading" using dl other[OF ad] by simp
    then obtain i sp where i: "i < length ws" "ws ! i = Busy a sp" "sp \<noteq> Returned"
      using held_ok_dispatched[OF ho ad] nf rt by auto
    have "i < length ws' \<and> i \<noteq> k" using persist[OF i] .
    then show ?thesis using others[of i] i by auto
  qed
  from d' show "\<exists>i < length ws'. \<exists>sp. ws' ! i = Busy a sp \<and> sp \<noteq> Returned"
  proof
    assume "dispatched s' = dispatched s"
    then show ?thesis using old a by simp
  next
    assume "\<exists>item sp0. dispatched s' = dispatched s @ [item] \<and> wk = Busy item sp0
                 \<and> (status (heap s' ! item) = downloading \<longrightarrow> sp0 \<noteq> Returned)"
    then obtain item sp0 where n: "dispatched s' = dispatched s @ [item]" "wk = Busy item sp0"
      "status (heap s' ! item) = downloading \<longrightarrow> sp0 \<noteq> Returned" by blast
    show ?thesis
    proof (cases "a = item")
      case True
      then have "sp0 \<noteq> Returned" using n(3) dl by simp
      then show ?thesis using k n(2) True by blast
    next
      case False
      then have "a \<in> set (dispatched s)" using a n(1) by simp
      then show ?thesis by (rule old)
    qed
  qed
qed

lemma held_ok_flagged: "True \<in> set (rethrows s) \<Longrightarrow> held_ok ws s"
  unfolding held_ok_def by blast

lemma workers_ok_install_Busy:
  assumes sh: "shape_ok urls s" and wo: "workers_ok ws s"
    and ins: "replaces ws k (Busy item sp0) ws'"
    and Cons: "queue s = item # rest"
    and q': "queue s' = rest" and d': "dispatched s' = dispatched s @ [item]"
    and at: "consistent (heap s' ! item) sp0"
    and other: "\<And>a. a < length urls \<Longrightarrow> a \<noteq> item \<Longrightarrow> heap s' ! a = heap s ! a"
  shows "workers_ok ws' s'"
proof (rule workers_okI)
  note b = shape_ok_bounds[OF sh]
  have k: "k < length ws'" "ws' ! k = Busy item sp0"
    and others: "\<And>i. i < length ws' \<Longrightarrow> i \<noteq> k \<Longrightarrow> i < length ws \<and> ws' ! i = ws ! i"
    using ins unfolding replaces_def by blast+
  have fresh: "item \<notin> set (dispatched s)" using b(6)[of item] Cons by simp
  have same: "heap s' ! a = heap s ! a" if "a \<in> set (dispatched s)" for a
    using other[of a] b(2)[OF that] that fresh by blast
  have old: "a \<in> set (dispatched s) \<and> consistent (heap s ! a) sp"
    if "i < length ws'" "i \<noteq> k" "ws' ! i = Busy a sp" for i a sp
    using others[OF that(1,2)] that(3) workers_ok_Busy[OF wo, of i a sp] by simp
  show "a \<in> set (dispatched s') \<and> consistent (heap s' ! a) sp"
    if "i < length ws'" "ws' ! i = Busy a sp" for i a sp
  proof (cases "i = k")
    case True
    then show ?thesis using that k at d' by simp
  next
    case False
    then show ?thesis using old[OF that(1) False that(2)] same d' by simp
  qed
  show "queue s' = []" if "i < length ws'" "ws' ! i = Finished" for i
  proof -
    have "i \<noteq> k" using that k by auto
    then have "i < length ws" "ws ! i = Finished" using others[OF that(1)] that(2) by simp_all
    then have "queue s = []" by (rule workers_ok_Finished[OF wo])
    then show ?thesis using Cons by simp
  qed
  show "ws' ! j \<noteq> Busy a sp'"
    if "i < length ws'" "j < length ws'" "i \<noteq> j" "ws' ! i = Busy a sp" for i j a sp sp'
  proof (cases "i = k")
    case True
    then have a: "a = item" using that k by simp
    have "j \<noteq> k" using True that(3) by simp
    show ?thesis
    proof
      assume "ws' ! j = Busy a sp'"
      then have "a \<in> set (dispatched s)" using old[OF that(2) \<open>j \<noteq> k\<close>] by blast
      then show False using a fresh by simp
    qed
  next
    case False
    note ik = this
    have ai: "a \<in> set (dispatched s)" using old[OF that(1) ik that(4)] by blast
    show ?thesis
    proof (cases "j = k")
      case True
      then show ?thesis using k ai fresh by auto
    next
      case False
      have "ws ! j \<noteq> Busy a sp'"
        using workers_ok_distinct[OF wo _ _ that(3), of a sp sp']
          others[OF that(1) ik] others[OF that(2) False] that(4) by simp
      then show ?thesis using others[OF that(2) False] by simp
    qed
  qed
  show "status (heap s' ! a) \<noteq> pending" if "a \<in> set (dispatched s')" for a
  proof (cases "a = item")
    case True
    then show ?thesis using consistent_not_pending[OF at] by simp
  next
    case False
    then have "a \<in> set (dispatched s)" using that d' by simp
    then show ?thesis using workers_ok_dispatched[OF wo] same by simp
  qed
qed

lemma workers_ok_processNext:
  assumes sh: "shape_ok urls s" and wo: "workers_ok ws s"
    and ins: "replaces ws k (snd (processNext opts s)) ws'"
  shows "workers_ok ws' (fst (processNext opts s))"
proof (cases "queue s")
  case Nil
  then show ?thesis
    using workers_ok_install_Finished[OF sh wo _ Nil, of k ws'] ins by (simp add: processNext_Nil)
next
  case (Cons item rest)
  note b = shape_ok_bounds[OF sh]
  have item: "item < length (heap s)" using b(4)[of item] Cons by simp
  note f = processNext_fields[OF Cons, where opts = opts]
  note h = processNext_heap[OF Cons item, where opts = opts]
  have pend: "status (heap s ! item) = pending" using sh Cons unfolding shape_ok_def by simp
  have at: "consistent (heap (fst (processNext opts s)) ! item)
              (snd (loop_head opts 0 None ((heap s ! item)\<lparr>status := downloading\<rparr>)))"
    unfolding h(1) by (rule consistent_loop_head) simp
  have other: "heap (fst (processNext opts s)) ! a = heap s ! a" if "a < length urls" "a \<noteq> item" for a
    using h(3)[of a] b(3)[OF that(1)] that(2) by simp
  show ?thesis
    using workers_ok_install_Busy[OF sh wo _ Cons f(2) f(3) at other] ins h(2) by simp
qed

lemma rethrows_processNext [simp]: "rethrows (fst (processNext opts s)) = rethrows s"
  by (cases "queue s") (simp_all add: processNext_def call_downloadWithRetry_def)

lemma held_ok_processNext:
  assumes sh: "shape_ok urls s" and ho: "held_ok ws s"
    and ins: "installs ws k (snd (processNext opts s)) ws'"
  shows "held_ok ws' (fst (processNext opts s))"
proof (cases "queue s")
  case Nil
  show ?thesis
    by (rule held_ok_install[OF sh ho ins]) (simp_all add: processNext_Nil[OF Nil])
next
  case (Cons item rest)
  note b = shape_ok_bounds[OF sh]
  have item: "item < length (heap s)" using b(4)[of item] Cons by simp
  note f = processNext_fields[OF Cons, where opts = opts]
  note h = processNext_heap[OF Cons item, where opts = opts]
  have fresh: "item \<notin> set (dispatched s)" using b(6)[of item] Cons by simp
  have at: "consistent (heap (fst (processNext opts s)) ! item)
              (snd (loop_head opts 0 None ((heap s ! item)\<lparr>status := downloading\<rparr>)))"
    unfolding h(1) by (rule consistent_loop_head) simp
  have other: "heap (fst (processNext opts s)) ! a = heap s ! a" if "a \<in> set (dispatched s)" for a
    using h(3)[of a] b(5)[OF that] that fresh by blast
  show ?thesis
  proof (rule held_ok_install[OF sh ho ins _ _ other])
    show "dispatched (fst (processNext opts s)) = dispatched s \<or>
          (\<exists>item sp0. dispatched (fst (processNext opts s)) = dispatched s @ [item]
              \<and> snd (processNext opts s) = Busy item sp0
              \<and> (status (heap (fst (processNext opts s)) ! item) = downloading \<longrightarrow> sp0 \<noteq> Returned))"
      using f(3) h(2) consistent_downloading[OF at] by blast
    show "rethrows (fst (processNext opts s)) = rethrows s" by simp
  qed
qed


subsection \<open>The invariant along a run\<close>

lemma inv_ignores_fields [simp]:
  "shape_ok urls (s\<lparr>workers := ws\<rparr>) = shape_ok urls s"
  "shape_ok urls (s\<lparr>active := n\<rparr>) = shape_ok urls s"
  "shape_ok urls (s\<lparr>rethrows := rs\<rparr>) = shape_ok urls s"
  "workers_ok ws' (s\<lparr>workers := ws\<rparr>) = workers_ok ws' s"
  "workers_ok ws' (s\<lparr>active := n\<rparr>) = workers_ok ws' s"
  "workers_ok ws' (s\<lparr>rethrows := rs\<rparr>) = workers_ok ws' s"
  "held_ok ws' (s\<lparr>workers := ws\<rparr>) = held_ok ws' s"
  "held_ok ws' (s\<lparr>active := n\<rparr>) = held_ok ws' s"
  "snapshots_ok N (s\<lparr>workers := ws\<rparr>) = snapshots_ok N s"
  "snapshots_ok N (s\<lparr>active := n\<rparr>) = snapshots_ok N s"
  "snapshots_ok N (s\<lparr>rethrows := rs\<rparr>) = snapshots_ok N s"
  by (simp_all add: shape_ok_def workers_ok_def held_ok_def snapshots_ok_def cong: worker.case_cong)

lemma finally_processNext_eq:
  "finally_processNext opts s = processNext opts (s\<lparr>active := active s - 1\<rparr>)"
  by (simp add: finally_processNext_def Let_def processNext_Nil)

lemma continue_processNext_eq:
  "continue_processNext opts s =
   processNext opts ((updateProgress opts Running s)\<lparr>active := active s - 1\<rparr>)"
  by (simp add: continue_processNext_def finally_processNext_eq)

lemma workers_processNext [simp]: "workers (fst (processNext opts s)) = workers s"
  by (cases "queue s") (simp_all add: processNext_Nil processNext_fields)

lemma requests_processNext [simp]: "requests (fst (processNext opts s)) = requests s"
  by (cases "queue s") (simp_all add: processNext_Nil processNext_fields)

lemma task_inv_cell_step:
  assumes inv: "task_inv urls n s"
    and w: "w < length (workers s)" "workers s ! w = Busy item sp"
    and dl: "sp \<noteq> Returned"
    and c: "status (heap s ! item) = downloading \<Longrightarrow> consistent r' sp'"
    and u: "url r' = url (heap s ! item)"
  shows "task_inv urls n (s\<lparr>heap := (heap s)[item := r'], workers := (workers s)[w := Busy item sp']\<rparr>)"
proof -
  have sh: "shape_ok urls s" and wo: "workers_ok (workers s) s" and ho: "held_ok (workers s) s"
    and sn: "snapshots_ok (length urls) s" and n: "length (workers s) \<le> n"
    and rl: "length (rethrows s) = length (workers s)"
    using inv unfolding task_inv_def by blast+
  note b = shape_ok_bounds[OF sh]
  have item: "item \<in> set (dispatched s)" and cons: "consistent (heap s ! item) sp"
    using workers_ok_Busy[OF wo w] by simp_all
  have il: "item < length (heap s)" using b(5)[OF item] .
  have "status (heap s ! item) = downloading" using cons dl by (simp add: consistent_def)
  then have c': "consistent r' sp'" by (rule c)
  let ?s' = "s\<lparr>heap := (heap s)[item := r']\<rparr>"
  have "shape_ok urls ?s'"
    by (rule shape_ok_cell_update[OF sh item]) (simp_all add: il u)
  moreover have "workers_ok ((workers s)[w := Busy item sp']) ?s'"
    by (rule workers_ok_cell_update[OF sh wo w c']) (simp_all add: il)
  moreover have "held_ok ((workers s)[w := Busy item sp']) ?s'"
    by (rule held_ok_cell_update[OF sh wo ho w c']) (simp_all add: il)
  moreover have "snapshots_ok (length urls) ?s'"
    using sn snapshots_ok_cong[of ?s' s] by simp
  ultimately show ?thesis using n rl unfolding task_inv_def by simp
qed

lemma observer_reach_bounds:
  "snapshots_ok N s \<Longrightarrow> a \<in> observer_reach s \<Longrightarrow> N \<le> a \<and> a < length (heap s)"
  unfolding snapshots_ok_def observer_reach_def by blast

text \<open>A worker runs on after its retry engine has returned.\<close>

lemma task_inv_continue:
  assumes inv: "task_inv urls n s"
    and w: "w < length (workers s)" "workers s ! w = Busy item Returned"
  shows "task_inv urls n
           ((fst (continue_processNext opts s))
              \<lparr>workers := (workers s)[w := snd (continue_processNext opts s)]\<rparr>)"
proof -
  have sh: "shape_ok urls s" and wo: "workers_ok (workers s) s" and ho: "held_ok (workers s) s"
    and sn: "snapshots_ok (length urls) s" and n: "length (workers s) \<le> n"
    and rl: "length (rethrows s) = length (workers s)"
    using inv unfolding task_inv_def by blast+
  let ?s2 = "(updateProgress opts Running s)\<lparr>active := active s - 1\<rparr>"
  have sh2: "shape_ok urls ?s2" using shape_ok_updateProgress[OF sh] by simp
  have wo2: "workers_ok (workers s) ?s2" using workers_ok_updateProgress[OF sh wo] by simp
  have ho2: "held_ok (workers s) ?s2" using held_ok_updateProgress[OF sh ho] by simp
  have sn2: "snapshots_ok (length urls) ?s2" using snapshots_ok_updateProgress[OF sn] by simp
  have ins: "installs (workers s) w (snd (processNext opts ?s2))
               ((workers s)[w := snd (processNext opts ?s2)])"
    using installs_update[OF w] by simp
  have "task_inv urls n ((fst (processNext opts ?s2))
          \<lparr>workers := (workers s)[w := snd (processNext opts ?s2)]\<rparr>)"
    unfolding task_inv_def
    using shape_ok_processNext[OF sh2] workers_ok_processNext[OF sh2 wo2 installs_replaces[OF ins]]
      held_ok_processNext[OF sh2 ho2 ins] snapshots_ok_processNext[OF sn2] n rl
    by simp
  then show ?thesis by (simp add: continue_processNext_eq)
qed

text \<open>
  A worker runs on after its retry engine has thrown: the request it held stays
  \<^verbatim>\<open>downloading\<close>, and the worker now holds an exception.
\<close>

lemma task_inv_rethrow:
  assumes inv: "task_inv urls n s"
    and w: "w < length (workers s)" "workers s ! w = Busy item Threw"
  shows "task_inv urls n
           ((fst (finally_processNext opts s))
              \<lparr>workers := (workers s)[w := snd (finally_processNext opts s)],
               rethrows := (rethrows s)[w := True]\<rparr>)"
proof -
  have sh: "shape_ok urls s" and wo: "workers_ok (workers s) s"
    and sn: "snapshots_ok (length urls) s" and n: "length (workers s) \<le> n"
    and rl: "length (rethrows s) = length (workers s)"
    using inv unfolding task_inv_def by blast+
  let ?s2 = "s\<lparr>active := active s - 1\<rparr>"
  let ?s' = "(fst (processNext opts ?s2))
          \<lparr>workers := (workers s)[w := snd (processNext opts ?s2)],
           rethrows := (rethrows s)[w := True]\<rparr>"
  have sh2: "shape_ok urls ?s2" using sh by simp
  have wo2: "workers_ok (workers s) ?s2" using wo by simp
  have sn2: "snapshots_ok (length urls) ?s2" using sn by simp
  have "True \<in> set ((rethrows s)[w := True])"
    using w(1) rl by (simp add: set_update_memI)
  then have "held_ok ((workers s)[w := snd (processNext opts ?s2)]) ?s'"
    by (intro held_ok_flagged) simp
  then have "task_inv urls n ?s'"
    unfolding task_inv_def
    using shape_ok_processNext[OF sh2] workers_ok_processNext[OF sh2 wo2 replaces_update[OF w(1)]]
      snapshots_ok_processNext[OF sn2] n rl
    by simp
  then show ?thesis by (simp add: finally_processNext_eq)
qed

lemma task_inv_step:
  assumes inv: "task_inv urls n s"
  shows "task_inv urls n (step opts s e)"
proof -
  have sh: "shape_ok urls s" and wo: "workers_ok (workers s) s" and ho: "held_ok (workers s) s"
    and sn: "snapshots_ok (length urls) s" and n: "length (workers s) \<le> n"
    and rl: "length (rethrows s) = length (workers s)"
    using inv unfolding task_inv_def by blast+
  show ?thesis
  proof (cases e)
    case (TransferDone w b)
    show ?thesis
    proof (cases "w < length (workers s)")
      case False
      then show ?thesis using inv TransferDone by simp
    next
      case True
      show ?thesis
      proof (cases "workers s ! w")
        case Finished
        then show ?thesis using inv TransferDone True by simp
      next
        case (Busy item sp)
        show ?thesis
        proof (cases sp)
          case (AwaitTransfer attempt lastError)
          have "task_inv urls n
            (s\<lparr>heap := (heap s)[item := fst (transfer_settled opts attempt lastError (downloadFile b) (heap s ! item))],
               workers := (workers s)[w := Busy item (snd (transfer_settled opts attempt lastError (downloadFile b) (heap s ! item)))]\<rparr>)"
            by (rule task_inv_cell_step[OF inv True Busy])
               (simp_all add: AwaitTransfer consistent_transfer_settled)
          then show ?thesis using TransferDone True Busy AwaitTransfer by simp
        qed (use inv TransferDone True Busy in simp_all)
      qed
    qed
  next
    case (TimerFired w)
    show ?thesis
    proof (cases "w < length (workers s)")
      case False
      then show ?thesis using inv TimerFired by simp
    next
      case True
      show ?thesis
      proof (cases "workers s ! w")
        case Finished
        then show ?thesis using inv TimerFired True by simp
      next
        case (Busy item sp)
        show ?thesis
        proof (cases sp)
          case (AwaitSleep attempt lastError ms)
          have "task_inv urls n
            (s\<lparr>heap := (heap s)[item := fst (loop_head opts attempt lastError (heap s ! item))],
               workers := (workers s)[w := Busy item (snd (loop_head opts attempt lastError (heap s ! item)))]\<rparr>)"
            by (rule task_inv_cell_step[OF inv True Busy])
               (simp_all add: AwaitSleep consistent_loop_head)
          then show ?thesis using TimerFired True Busy AwaitSleep by simp
        qed (use inv TimerFired True Busy in simp_all)
      qed
    qed
  next
    case (Resume w)
    show ?thesis
    proof (cases "w < length (workers s)")
      case False
      then show ?thesis using inv Resume by simp
    next
      case True
      show ?thesis
      proof (cases "workers s ! w")
        case Finished
        then show ?thesis using inv Resume True by simp
      next
        case (Busy item sp)
        show ?thesis
        proof (cases sp)
          case Returned
          then show ?thesis
            using task_inv_continue[OF inv True, of item opts] Resume True Busy by simp
        next
          case Threw
          then show ?thesis
            using task_inv_rethrow[OF inv True, of item opts] Resume True Busy by simp
        qed (use inv Resume True Busy in simp_all)
      qed
    qed
  next
    case (ObserverWrite a r)
    show ?thesis
    proof (cases "a \<in> observer_reach s")
      case False
      then show ?thesis using inv ObserverWrite by simp
    next
      case True
      then have a: "length urls \<le> a" using observer_reach_bounds[OF sn] by blast
      let ?s' = "s\<lparr>heap := (heap s)[a := r]\<rparr>"
      have same: "(heap s)[a := r] ! x = heap s ! x" if "x < length urls" for x
        using that a by simp
      have "shape_ok urls ?s'" by (rule shape_ok_cong[OF sh]) (simp_all add: same)
      moreover have "workers_ok (workers s) ?s'" by (rule workers_ok_cong[OF sh wo]) (simp_all add: same)
      moreover have "held_ok (workers s) ?s'" by (rule held_ok_cong[OF sh ho]) (simp_all add: same)
      moreover have "snapshots_ok (length urls) ?s'" using sn snapshots_ok_cong[of ?s' s] by simp
      ultimately have "task_inv urls n ?s'" using n rl unfolding task_inv_def by simp
      then show ?thesis using ObserverWrite True by simp
    qed
  qed
qed

lemma task_inv_run: "task_inv urls n s \<Longrightarrow> task_inv urls n (run opts s sched)"
  by (induction sched arbitrary: s) (simp_all add: task_inv_step)

lemma held_ok_append_False:
  "rs = rethrows s @ [False] \<Longrightarrow> held_ok ws (s\<lparr>rethrows := rs\<rparr>) = held_ok ws s"
  by (simp add: held_ok_def)

lemma task_inv_launch:
  "task_inv urls n s \<Longrightarrow> length (workers s) + k \<le> n \<Longrightarrow> task_inv urls n (launch opts k s)"
proof (induction k arbitrary: s)
  case 0
  then show ?case by simp
next
  case (Suc k)
  have sh: "shape_ok urls s" and wo: "workers_ok (workers s) s" and ho: "held_ok (workers s) s"
    and sn: "snapshots_ok (length urls) s"
    and rl: "length (rethrows s) = length (workers s)"
    using Suc.prems(1) unfolding task_inv_def by blast+
  let ?s' = "(fst (processNext opts s))
      \<lparr>workers := workers s @ [snd (processNext opts s)], rethrows := rethrows s @ [False]\<rparr>"
  have h: "held_ok (workers s @ [snd (processNext opts s)]) ?s'"
    using held_ok_processNext[OF sh ho installs_append, of opts]
      held_ok_append_False[of "rethrows s @ [False]" "(fst (processNext opts s))
      \<lparr>workers := workers s @ [snd (processNext opts s)]\<rparr>" "workers s @ [snd (processNext opts s)]"]
    by simp
  have "task_inv urls n ?s'"
    unfolding task_inv_def
    using shape_ok_processNext[OF sh]
      workers_ok_processNext[OF sh wo installs_replaces[OF installs_append]] h
      snapshots_ok_processNext[OF sn] Suc.prems(2) rl
    by simp
  moreover have "length (workers ?s') + k \<le> n" using Suc.prems(2) by simp
  ultimately show ?case using Suc.IH[of ?s'] by simp
qed

lemma task_inv_initial: "task_inv urls n (initial_state URL_pathname ids urls)"
proof -
  have "shape_ok urls (initial_state URL_pathname ids urls)"
    by (simp add: shape_ok_def initial_state_def make_request_def)
  moreover have "workers_ok [] (initial_state URL_pathname ids urls)"
    by (rule workers_okI) (simp_all add: initial_state_def)
  moreover have "held_ok [] (initial_state URL_pathname ids urls)"
    by (rule held_okI) (simp_all add: initial_state_def)
  moreover have "snapshots_ok (length urls) (initial_state URL_pathname ids urls)"
    by (simp add: snapshots_ok_def initial_state_def)
  ultimately show ?thesis by (simp add: task_inv_def initial_state_def)
qed

lemma task_inv_updateProgress:
  assumes "task_inv urls n s"
  shows "task_inv urls n (updateProgress opts st s)"
proof -
  have sh: "shape_ok urls s" and wo: "workers_ok (workers s) s" and ho: "held_ok (workers s) s"
    and sn: "snapshots_ok (length urls) s" and n: "length (workers s) \<le> n"
    and rl: "length (rethrows s) = length (workers s)"
    using assms unfolding task_inv_def by blast+
  show ?thesis
    unfolding task_inv_def
    using shape_ok_updateProgress[OF sh] workers_ok_updateProgress[OF sh wo]
      held_ok_updateProgress[OF sh ho] snapshots_ok_updateProgress[OF sn] n rl
    by simp
qed

lemma task_inv_started:
  "task_inv urls (nat (concurrency opts)) (started URL_pathname ids opts urls)"
proof -
  have "task_inv urls (nat (concurrency opts))
          (updateProgress opts Idle (initial_state URL_pathname ids urls))"
    by (rule task_inv_updateProgress[OF task_inv_initial])
  moreover have "workers (updateProgress opts Idle (initial_state URL_pathname ids urls)) = []"
    by (simp add: initial_state_def)
  ultimately show ?thesis unfolding started_def by (intro task_inv_launch) simp_all
qed

lemma task_inv_reached:
  "task_inv urls (nat (concurrency opts)) (run opts (started URL_pathname ids opts urls) sched)"
  by (rule task_inv_run) (rule task_inv_started)


section \<open>Snapshots, concurrency and the result\<close>

lemma task_inv_snapshots:
  "task_inv urls n s \<Longrightarrow> snap \<in> set (emitted s) \<Longrightarrow>
   completed snap = successes snap + failures snap \<and> completed snap \<le> total snap
   \<and> total snap = length urls"
  unfolding task_inv_def snapshots_ok_def by blast

text \<open>
  C6. Every snapshot delivered to the observer, whatever the URLs, the options and the
  events, has \<open>completed = successes + failures\<close>, \<open>completed \<le> total\<close>, and \<open>total\<close> equal
  to the number of input URLs.
\<close>

theorem snapshot_counts:
  "\<forall>snap \<in> set (emitted (snd (runDownloadTask URL_pathname ids urls options sched))).
     completed snap = successes snap + failures snap \<and> completed snap \<le> total snap
     \<and> total snap = length urls"
proof (cases "urls = []")
  case True
  then show ?thesis by (simp add: runDownloadTask_def no_state_def)
next
  case False
  let ?opts = "mergeOptions options"
  let ?s = "run ?opts (started URL_pathname ids ?opts urls) sched"
  have inv: "task_inv urls (nat (concurrency ?opts)) ?s" by (rule task_inv_reached)
  have inv': "task_inv urls (nat (concurrency ?opts)) (updateProgress ?opts Completed ?s)"
    by (rule task_inv_updateProgress[OF inv])
  show ?thesis
  proof (cases "all_finished ?s \<and> \<not> worker_rejected ?s")
    case True
    then have eq: "snd (runDownloadTask URL_pathname ids urls options sched) = updateProgress ?opts Completed ?s"
      using False by (simp add: runDownloadTask_def Let_def)
    show ?thesis unfolding eq using task_inv_snapshots[OF inv'] by blast
  next
    case nf: False
    then have eq: "snd (runDownloadTask URL_pathname ids urls options sched) = ?s"
      using False by (auto simp: runDownloadTask_def Let_def)
    show ?thesis unfolding eq using task_inv_snapshots[OF inv] by blast
  qed
qed



theorem snapshot_counts_witness:
  "emitted (snd (runDownloadTask Map.empty example_ids [''https://a/b.png'']
       \<lparr>opt_concurrency = Some 1, opt_maxRetries = Some 0, opt_retryDelayMs = None, opt_onProgress = True\<rparr>
       [TransferDone 0 (http_error 404), Resume 0]))
   = [\<lparr>total = 1, completed = 0, successes = 0, failures = 0, entries = [1], snapshot_status = Idle\<rparr>,
      \<lparr>total = 1, completed = 0, successes = 0, failures = 0, entries = [2], snapshot_status = Running\<rparr>,
      \<lparr>total = 1, completed = 1, successes = 0, failures = 1, entries = [3], snapshot_status = Running\<rparr>,
      \<lparr>total = 1, completed = 1, successes = 0, failures = 1, entries = [4], snapshot_status = Completed\<rparr>]"
proof -
  have ev: "emitted (snd (runDownloadTask Map.empty example_ids [''https://a/b.png'']
       \<lparr>opt_concurrency = Some 1, opt_maxRetries = Some 0, opt_retryDelayMs = None, opt_onProgress = True\<rparr>
       [TransferDone 0 (http_error 404), Resume 0]))
   = [\<lparr>total = 1, completed = 0, successes = 0, failures = 0, entries = [1], snapshot_status = Idle\<rparr>,
      \<lparr>total = 1, completed = 0, successes = 0, failures = 0, entries = [2], snapshot_status = Running\<rparr>,
      \<lparr>total = 1, completed = 1, successes = 0, failures = 1, entries = [3], snapshot_status = Running\<rparr>,
      \<lparr>total = 1, completed = 1, successes = 0, failures = 1, entries = [4], snapshot_status = Completed\<rparr>]"
    by code_simp
  from snapshot_counts
    [of Map.empty example_ids "[''https://a/b.png'']"
        "\<lparr>opt_concurrency = Some 1, opt_maxRetries = Some 0, opt_retryDelayMs = None, opt_onProgress = True\<rparr>"
        "[TransferDone 0 (http_error 404), Resume 0]"] ev
  show ?thesis by blast
qed

lemma length_workers_step [simp]: "length (workers (step opts s e)) = length (workers s)"
  by (cases e) (auto split: worker.splits suspension.splits)

lemma length_workers_run [simp]: "length (workers (run opts s sched)) = length (workers s)"
  by (induction sched arbitrary: s) simp_all

lemma length_workers_launch [simp]: "length (workers (launch opts k s)) = length (workers s) + k"
  by (induction k arbitrary: s) simp_all

lemma length_workers_started [simp]:
  "length (workers (started URL_pathname ids opts urls)) = nat (concurrency opts)"
  by (simp add: started_def initial_state_def)

lemma live_nth:
  "requests s = [0 ..< N] \<Longrightarrow> live s = map (\<lambda>a. heap s ! a) [0 ..< N]"
  by (simp add: live_def)

text \<open>
  As long as no worker holds an exception, the requests that are \<^verbatim>\<open>downloading\<close> are held
  by different workers, so there are no more of them than workers.
\<close>

lemma downloading_bound:
  assumes inv: "task_inv urls n s" and nf: "True \<notin> set (rethrows s)"
  shows "length (filter (\<lambda>r. status r = downloading) (live s)) \<le> length (workers s)"
proof -
  have sh: "shape_ok urls s" and wo: "workers_ok (workers s) s" and ho: "held_ok (workers s) s"
    and sn: "snapshots_ok (length urls) s"
    using inv unfolding task_inv_def by blast+
  define D where "D = {a. a < length urls \<and> status (heap s ! a) = downloading}"
  define g where "g i = (case workers s ! i of Busy a sp \<Rightarrow> a | Finished \<Rightarrow> length urls)" for i
  have req: "requests s = [0 ..< length urls]" using sn unfolding snapshots_ok_def by simp
  have "length (filter (\<lambda>r. status r = downloading) (live s))
        = length (filter (\<lambda>a. status (heap s ! a) = downloading) [0 ..< length urls])"
    by (simp add: live_nth[OF req] filter_map comp_def)
  also have "\<dots> = card ({a. status (heap s ! a) = downloading} \<inter> set [0 ..< length urls])"
    by (rule distinct_length_filter) simp
  also have "{a. status (heap s ! a) = downloading} \<inter> set [0 ..< length urls] = D"
    by (auto simp: D_def)
  finally have len: "length (filter (\<lambda>r. status r = downloading) (live s)) = card D" .
  have "D \<subseteq> g ` {0 ..< length (workers s)}"
  proof
    fix a assume "a \<in> D"
    then have a: "a < length urls" "status (heap s ! a) = downloading" by (simp_all add: D_def)
    have "a \<in> set (dispatched s @ queue s)" using sh a(1) unfolding shape_ok_def by simp
    moreover have "a \<notin> set (queue s)" using sh a(2) unfolding shape_ok_def by auto
    ultimately have ad: "a \<in> set (dispatched s)" by simp
    obtain i sp where i: "i < length (workers s)" "workers s ! i = Busy a sp"
      using held_ok_dispatched[OF ho ad a(2)] nf by blast
    then have "g i = a" by (simp add: g_def)
    then show "a \<in> g ` {0 ..< length (workers s)}" using i(1) by force
  qed
  then have "card D \<le> card (g ` {0 ..< length (workers s)})" by (intro card_mono) simp_all
  also have "\<dots> \<le> card {0 ..< length (workers s)}" by (rule card_image_le) simp
  finally show ?thesis using len by simp
qed

text \<open>
  When every worker has finished and the promise of none is rejected, no worker holds
  an exception.
\<close>

lemma fulfilled_no_rethrow:
  assumes inv: "task_inv urls n s" and fin: "all_finished s" and nr: "\<not> worker_rejected s"
  shows "True \<notin> set (rethrows s)"
proof
  assume "True \<in> set (rethrows s)"
  then obtain i where i: "i < length (rethrows s)" "rethrows s ! i = True"
    by (auto simp: in_set_conv_nth)
  have rl: "length (rethrows s) = length (workers s)" using inv unfolding task_inv_def by blast
  have "workers s ! i = Finished"
    using fin i(1) rl unfolding all_finished_def by (simp add: list_all_length)
  then have "(Finished, True) \<in> set (zip (workers s) (rethrows s))"
    using i rl by (auto simp: in_set_zip intro!: exI[of _ i])
  then have "worker_rejected s" unfolding worker_rejected_def list_ex_iff by fastforce
  then show False using nr by simp
qed

lemma finished_queue_empty:
  assumes inv: "task_inv urls n s" and fin: "all_finished s" and w: "workers s \<noteq> []"
  shows "queue s = []" and "dispatched s = [0 ..< length urls]"
proof -
  have sh: "shape_ok urls s" and wo: "workers_ok (workers s) s"
    using inv unfolding task_inv_def by blast+
  have allf: "workers s ! i = Finished" if "i < length (workers s)" for i
    using fin that unfolding all_finished_def by (simp add: list_all_length)
  have "0 < length (workers s)" using w by simp
  then show q: "queue s = []" using workers_ok_Finished[OF wo _ allf] by blast
  then show "dispatched s = [0 ..< length urls]" using sh unfolding shape_ok_def by simp
qed

lemma fulfilled_terminal:
  assumes inv: "task_inv urls n s" and fin: "all_finished s" and w: "workers s \<noteq> []"
    and nr: "\<not> worker_rejected s" and a: "a < length urls"
  shows "status (heap s ! a) = success \<or> status (heap s ! a) = failed"
proof -
  have wo: "workers_ok (workers s) s" and ho: "held_ok (workers s) s"
    using inv unfolding task_inv_def by blast+
  note nf = fulfilled_no_rethrow[OF inv fin nr]
  have allf: "workers s ! i = Finished" if "i < length (workers s)" for i
    using fin that unfolding all_finished_def by (simp add: list_all_length)
  have ad: "a \<in> set (dispatched s)" using finished_queue_empty(2)[OF inv fin w] a by simp
  have "status (heap s ! a) \<noteq> pending" using workers_ok_dispatched[OF wo ad] .
  moreover have "status (heap s ! a) \<noteq> downloading"
  proof
    assume "status (heap s ! a) = downloading"
    then obtain i sp where "i < length (workers s)" "workers s ! i = Busy a sp"
      using held_ok_dispatched[OF ho ad] nf by blast
    then show False using allf by simp
  qed
  ultimately show "status (heap s ! a) = success \<or> status (heap s ! a) = failed"
    by (cases "status (heap s ! a)") simp_all
qed

lemma length_filter_two:
  "\<forall>a \<in> set xs. f a = success \<or> f a = failed \<Longrightarrow>
   length (filter (\<lambda>a. f a = success) xs) + length (filter (\<lambda>a. f a = failed) xs) = length xs"
  by (induction xs) auto

text \<open>
  C1, amended. With \<open>concurrency \<ge> 1\<close>, whenever \<^verbatim>\<open>runDownloadTask\<close> completes, the requests
  are the URLs in input order, \<open>successes\<close> is exactly the requests with status success
  and \<open>failures\<close> exactly those with status failed, both in input order, and their
  lengths add up to the number of input URLs.
\<close>

theorem result_partition:
  assumes c: "1 \<le> concurrency (mergeOptions options)"
    and r: "runDownloadTask URL_pathname ids urls options sched = (Fulfilled res, s)"
  shows "requests s = [0 ..< length urls]
       \<and> map (\<lambda>a. url (heap s ! a)) (requests s) = urls
       \<and> result_successes res = filter (\<lambda>a. status (heap s ! a) = success) (requests s)
       \<and> result_failures res = filter (\<lambda>a. status (heap s ! a) = failed) (requests s)
       \<and> length (result_successes res) + length (result_failures res) = length urls
       \<and> sorted_wrt (<) (result_successes res) \<and> sorted_wrt (<) (result_failures res)"
proof (cases "urls = []")
  case True
  then have "res = \<lparr>result_successes = [], result_failures = []\<rparr>" "s = no_state"
    using r by (simp_all add: runDownloadTask_def)
  then show ?thesis using True by (simp add: no_state_def)
next
  case False
  let ?opts = "mergeOptions options"
  let ?s0 = "run ?opts (started URL_pathname ids ?opts urls) sched"
  have fin: "all_finished ?s0" and nr: "\<not> worker_rejected ?s0"
    and s: "s = updateProgress ?opts Completed ?s0"
    and res: "res = collect s"
    using r False by (auto simp: runDownloadTask_def Let_def split: if_splits)
  have inv0: "task_inv urls (nat (concurrency ?opts)) ?s0" by (rule task_inv_reached)
  have inv: "task_inv urls (nat (concurrency ?opts)) s"
    unfolding s by (rule task_inv_updateProgress[OF inv0])
  have sh: "shape_ok urls s" and sn: "snapshots_ok (length urls) s"
    using inv unfolding task_inv_def by blast+
  have sh0: "shape_ok urls ?s0" using inv0 unfolding task_inv_def by blast
  have req: "requests s = [0 ..< length urls]" using sn unfolding snapshots_ok_def by simp
  have "workers ?s0 \<noteq> []" using c by (simp flip: length_0_conv)
  note f = fulfilled_terminal[OF inv0 fin this nr]
  have same: "heap s ! a = heap ?s0 ! a" if "a < length urls" for a
    unfolding s using shape_ok_bounds(3)[OF sh0 that] by simp
  have terminal: "\<forall>a \<in> set (requests s). status (heap s ! a) = success \<or> status (heap s ! a) = failed"
    using f same req by simp
  have u: "\<forall>a < length urls. url (heap s ! a) = urls ! a"
    using sh unfolding shape_ok_def by blast
  have "map (\<lambda>a. url (heap s ! a)) [0 ..< length urls] = urls"
  proof (rule nth_equalityI)
    show "length (map (\<lambda>a. url (heap s ! a)) [0 ..< length urls]) = length urls" by simp
    fix i assume "i < length (map (\<lambda>a. url (heap s ! a)) [0 ..< length urls])"
    then have "i < length urls" by simp
    then show "map (\<lambda>a. url (heap s ! a)) [0 ..< length urls] ! i = urls ! i" using u by simp
  qed
  then have 2: "map (\<lambda>a. url (heap s ! a)) (requests s) = urls" using req by simp
  have 3: "result_successes res = filter (\<lambda>a. status (heap s ! a) = success) (requests s)"
    and 4: "result_failures res = filter (\<lambda>a. status (heap s ! a) = failed) (requests s)"
    by (simp_all add: res collect_def)
  have 5: "length (result_successes res) + length (result_failures res) = length urls"
    unfolding 3 4 using length_filter_two[OF terminal] req by simp
  have 6: "sorted_wrt (<) (result_successes res)" "sorted_wrt (<) (result_failures res)"
    unfolding 3 4 req by (simp_all add: sorted_wrt_filter)
  show ?thesis using req 2 3 4 5 6 by blast
qed


theorem result_partition_witness:
  "1 \<le> concurrency (mergeOptions
       \<lparr>opt_concurrency = Some 1, opt_maxRetries = Some 0, opt_retryDelayMs = None, opt_onProgress = True\<rparr>)
   \<and> fst (runDownloadTask Map.empty example_ids [''https://a/1.png'', ''https://a/2.png'']
       \<lparr>opt_concurrency = Some 1, opt_maxRetries = Some 0, opt_retryDelayMs = None, opt_onProgress = True\<rparr>
       [TransferDone 0 (http_error 404), Resume 0, TransferDone 0 transfer_ok, Resume 0])
     = Fulfilled \<lparr>result_successes = [1], result_failures = [0]\<rparr>
   \<and> length (result_successes \<lparr>result_successes = [1], result_failures = [0]\<rparr>)
     + length (result_failures \<lparr>result_successes = [1], result_failures = [0]\<rparr>)
     = length [''https://a/1.png'', ''https://a/2.png'']"
proof -
  have ev: "fst (runDownloadTask Map.empty example_ids [''https://a/1.png'', ''https://a/2.png'']
       \<lparr>opt_concurrency = Some 1, opt_maxRetries = Some 0, opt_retryDelayMs = None, opt_onProgress = True\<rparr>
       [TransferDone 0 (http_error 404), Resume 0, TransferDone 0 transfer_ok, Resume 0])
     = Fulfilled \<lparr>result_successes = [1], result_failures = [0]\<rparr>"
    by code_simp
  have h: "1 \<le> concurrency (mergeOptions
       \<lparr>opt_concurrency = Some 1, opt_maxRetries = Some 0, opt_retryDelayMs = None, opt_onProgress = True\<rparr>)"
    by (simp add: mergeOptions_def)
  have r: "runDownloadTask Map.empty example_ids [''https://a/1.png'', ''https://a/2.png'']
       \<lparr>opt_concurrency = Some 1, opt_maxRetries = Some 0, opt_retryDelayMs = None, opt_onProgress = True\<rparr>
       [TransferDone 0 (http_error 404), Resume 0, TransferDone 0 transfer_ok, Resume 0]
     = (Fulfilled \<lparr>result_successes = [1], result_failures = [0]\<rparr>,
        snd (runDownloadTask Map.empty example_ids [''https://a/1.png'', ''https://a/2.png'']
       \<lparr>opt_concurrency = Some 1, opt_maxRetries = Some 0, opt_retryDelayMs = None, opt_onProgress = True\<rparr>
       [TransferDone 0 (http_error 404), Resume 0, TransferDone 0 transfer_ok, Resume 0]))"
    using ev by (simp add: prod_eq_iff)
  have l: "length (result_successes \<lparr>result_successes = [1], result_failures = [0]\<rparr>)
     + length (result_failures \<lparr>result_successes = [1], result_failures = [0]\<rparr>)
     = length [''https://a/1.png'', ''https://a/2.png'']"
    using result_partition[OF h r] by blast
  from ev h l show ?thesis by blast
qed

text \<open>
  C1 as stated, for every configuration, does not hold: with \<open>concurrency = 0\<close>
  \<^verbatim>\<open>Array.from\<close> starts no worker, \<^verbatim>\<open>Promise.all\<close> of no promises is fulfilled at once,
  and the task completes with one URL and an empty result.
\<close>

theorem result_partition_counterexample:
  "fst (runDownloadTask Map.empty example_ids [''https://a/1.png'']
       \<lparr>opt_concurrency = Some 0, opt_maxRetries = None, opt_retryDelayMs = None, opt_onProgress = False\<rparr>
       [])
     = Fulfilled \<lparr>result_successes = [], result_failures = []\<rparr>
   \<and> length (result_successes \<lparr>result_successes = [], result_failures = []\<rparr>)
     + length (result_failures \<lparr>result_successes = [], result_failures = []\<rparr>)
     \<noteq> length [''https://a/1.png'']"
  by code_simp


section \<open>Snapshots are copies\<close>

lemma same_orchestration_live: "same_orchestration s t \<Longrightarrow> live s = live t"
  by (simp add: same_orchestration_def live_def)

lemma same_orchestration_refl: "same_orchestration s s"
  by (simp add: same_orchestration_def)

lemma same_orchestration_cell:
  assumes "same_orchestration s t" and "item \<in> set (requests s)" and "item < length (heap s)"
    and "heap s' = (heap s)[item := r]" and "heap t' = (heap t)[item := r]"
    and "requests s' = requests s" and "requests t' = requests t"
    and "queue s' = queue t'" and "active s' = active t'" and "workers s' = workers t'"
    and "emitted s' = emitted t'" and "dispatched s' = dispatched t'"
    and "rethrows s' = rethrows t'"
  shows "same_orchestration s' t'"
proof -
  have len: "length (heap s) = length (heap t)"
    and agree: "\<forall>a \<in> set (requests s). heap s ! a = heap t ! a"
    and req: "requests s = requests t"
    using assms(1) unfolding same_orchestration_def by blast+
  have "heap s' ! a = heap t' ! a" if "a \<in> set (requests s')" for a
  proof (cases "a = item")
    case True
    then show ?thesis using assms(3,4,5) len by simp
  next
    case False
    then show ?thesis using that agree assms(4,5,6) by simp
  qed
  then show ?thesis
    unfolding same_orchestration_def using assms(4-13) len req by simp
qed

lemma same_orchestration_updateProgress:
  assumes same: "same_orchestration s t" and b: "\<forall>a \<in> set (requests s). a < length (heap s)"
  shows "same_orchestration (updateProgress opts st s) (updateProgress opts st t)"
proof (cases "onProgress opts")
  case False
  then show ?thesis using same by (simp add: updateProgress_def)
next
  case True
  have len: "length (heap s) = length (heap t)"
    and agree: "\<forall>a \<in> set (requests s). heap s ! a = heap t ! a"
    and req: "requests s = requests t"
    and em: "emitted s = emitted t"
    using same unfolding same_orchestration_def by blast+
  have lv: "live s = live t" by (rule same_orchestration_live[OF same])
  have 1: "emitted (updateProgress opts st s) = emitted (updateProgress opts st t)"
    by (simp add: emitted_updateProgress lv len req em)
  have 2: "length (heap (updateProgress opts st s)) = length (heap (updateProgress opts st t))"
    by (simp add: length_heap_updateProgress len req)
  have 3: "heap (updateProgress opts st s) ! a = heap (updateProgress opts st t) ! a"
    if "a \<in> set (requests (updateProgress opts st s))" for a
  proof -
    have a: "a \<in> set (requests s)" using that by simp
    then have "a < length (heap s)" "a < length (heap t)" using b len by auto
    then show ?thesis using agree a by simp
  qed
  show ?thesis unfolding same_orchestration_def
    using 1 2 3 same unfolding same_orchestration_def by simp
qed

lemma same_orchestration_processNext:
  assumes same: "same_orchestration s t" and sh: "shape_ok urls s"
    and req: "requests s = [0 ..< length urls]"
  shows "same_orchestration (fst (processNext opts s)) (fst (processNext opts t))"
    and "snd (processNext opts s) = snd (processNext opts t)"
proof -
  have q: "queue s = queue t" and len: "length (heap s) = length (heap t)"
    and agree: "\<forall>a \<in> set (requests s). heap s ! a = heap t ! a"
    and rq: "requests s = requests t"
    using same unfolding same_orchestration_def by blast+
  note b = shape_ok_bounds[OF sh]
  have inb: "\<forall>a \<in> set (requests s). a < length (heap s)" using req b(3) by simp
  have "same_orchestration (fst (processNext opts s)) (fst (processNext opts t))
      \<and> snd (processNext opts s) = snd (processNext opts t)"
  proof (cases "queue s")
    case Nil
    then show ?thesis using same q by (simp add: processNext_Nil)
  next
    case (Cons item rest)
    have il: "item < length (heap s)" and iN: "item < length urls"
      using b(1,4)[of item] Cons by simp_all
    have ir: "item \<in> set (requests s)" using iN req by simp
    have eq: "heap s ! item = heap t ! item" using agree ir by blast
    define r1 where "r1 = (heap s ! item)\<lparr>status := downloading\<rparr>"
    define s1 where "s1 = s\<lparr>queue := rest, active := active s + 1, heap := (heap s)[item := r1]\<rparr>"
    define t1 where "t1 = t\<lparr>queue := rest, active := active t + 1, heap := (heap t)[item := r1]\<rparr>"
    define s2 where "s2 = updateProgress opts Running s1"
    define t2 where "t2 = updateProgress opts Running t1"
    have s1: "same_orchestration s1 t1"
      unfolding s1_def t1_def
      by (rule same_orchestration_cell[OF same ir il])
         (use same in \<open>simp_all add: same_orchestration_def\<close>)
    have inb1: "\<forall>a \<in> set (requests s1). a < length (heap s1)" using inb by (simp add: s1_def)
    have s2: "same_orchestration s2 t2"
      unfolding s2_def t2_def by (rule same_orchestration_updateProgress[OF s1 inb1])
    have ir2: "item \<in> set (requests s2)" using ir by (simp add: s2_def s1_def)
    have il2: "item < length (heap s2)"
      using il by (simp add: s2_def s1_def length_heap_updateProgress)
    have at2: "heap s2 ! item = r1" "heap t2 ! item = r1"
      using il len by (simp_all add: s2_def t2_def s1_def t1_def)
    have pn: "processNext opts s = call_downloadWithRetry opts item s2"
      "processNext opts t = call_downloadWithRetry opts item t2"
      using Cons q eq by (simp_all add: processNext_def s2_def t2_def s1_def t1_def r1_def)
    have "snd (processNext opts s) = snd (processNext opts t)"
      unfolding pn by (simp add: call_downloadWithRetry_def at2)
    moreover have "same_orchestration (fst (processNext opts s)) (fst (processNext opts t))"
      unfolding pn
      by (rule same_orchestration_cell[OF s2 ir2 il2, where r = "fst (loop_head opts 0 None r1)"])
         (use s2 in \<open>simp_all add: call_downloadWithRetry_def at2 same_orchestration_def\<close>)
    ultimately show ?thesis by blast
  qed
  then show "same_orchestration (fst (processNext opts s)) (fst (processNext opts t))"
    and "snd (processNext opts s) = snd (processNext opts t)" by blast+
qed


lemma task_inv_parts:
  assumes "task_inv urls n s"
  shows "shape_ok urls s" and "workers_ok (workers s) s" and "snapshots_ok (length urls) s"
    and "requests s = [0 ..< length urls]" and "held_ok (workers s) s"
    and "length (rethrows s) = length (workers s)"
  using assms unfolding task_inv_def snapshots_ok_def by blast+

lemma same_orchestration_worker_cell:
  assumes inv: "task_inv urls n s" and same: "same_orchestration s t"
    and w: "w < length (workers s)" "workers s ! w = Busy item sp"
  shows "same_orchestration
           (s\<lparr>heap := (heap s)[item := f (heap s ! item)], workers := (workers s)[w := wk]\<rparr>)
           (t\<lparr>heap := (heap t)[item := f (heap t ! item)], workers := (workers t)[w := wk]\<rparr>)"
proof -
  note p = task_inv_parts[OF inv]
  note b = shape_ok_bounds[OF p(1)]
  have item: "item \<in> set (dispatched s)" using workers_ok_Busy[OF p(2) w] by simp
  have ir: "item \<in> set (requests s)" using b(2)[OF item] p(4) by simp
  have il: "item < length (heap s)" using b(5)[OF item] .
  have eq: "heap t ! item = heap s ! item" using same ir unfolding same_orchestration_def by simp
  show ?thesis
    by (rule same_orchestration_cell[OF same ir il, where r = "f (heap s ! item)"])
       (use same in \<open>simp_all add: same_orchestration_def eq\<close>)
qed

lemma same_orchestration_step:
  assumes inv: "task_inv urls n s" and same: "same_orchestration s t"
    and e: "\<not> is_observer_write e"
  shows "same_orchestration (step opts s e) (step opts t e)"
proof -
  note p = task_inv_parts[OF inv]
  have ws: "workers t = workers s" using same unfolding same_orchestration_def by simp
  show ?thesis
  proof (cases e)
    case (TransferDone w b)
    show ?thesis
    proof (cases "w < length (workers s)")
      case False
      then show ?thesis using same TransferDone ws by simp
    next
      case True
      show ?thesis
      proof (cases "workers s ! w")
        case Finished
        then show ?thesis using same TransferDone True ws by simp
      next
        case (Busy item sp)
        have agree: "heap t ! item = heap s ! item"
        proof -
          have "item \<in> set (dispatched s)" using workers_ok_Busy[OF p(2) True Busy] by simp
          then have "item \<in> set (requests s)" using shape_ok_bounds(2)[OF p(1)] p(4) by simp
          then show ?thesis using same unfolding same_orchestration_def by simp
        qed
        show ?thesis
        proof (cases sp)
          case (AwaitTransfer attempt lastError)
          have "same_orchestration
            (s\<lparr>heap := (heap s)[item := fst (transfer_settled opts attempt lastError (downloadFile b) (heap s ! item))],
               workers := (workers s)[w := Busy item (snd (transfer_settled opts attempt lastError (downloadFile b) (heap s ! item)))]\<rparr>)
            (t\<lparr>heap := (heap t)[item := fst (transfer_settled opts attempt lastError (downloadFile b) (heap t ! item))],
               workers := (workers t)[w := Busy item (snd (transfer_settled opts attempt lastError (downloadFile b) (heap s ! item)))]\<rparr>)"
            by (rule same_orchestration_worker_cell[OF inv same True Busy])
          then show ?thesis using TransferDone True Busy AwaitTransfer ws agree by simp
        qed (use same TransferDone True Busy ws in simp_all)
      qed
    qed
  next
    case (TimerFired w)
    show ?thesis
    proof (cases "w < length (workers s)")
      case False
      then show ?thesis using same TimerFired ws by simp
    next
      case True
      show ?thesis
      proof (cases "workers s ! w")
        case Finished
        then show ?thesis using same TimerFired True ws by simp
      next
        case (Busy item sp)
        have agree: "heap t ! item = heap s ! item"
        proof -
          have "item \<in> set (dispatched s)" using workers_ok_Busy[OF p(2) True Busy] by simp
          then have "item \<in> set (requests s)" using shape_ok_bounds(2)[OF p(1)] p(4) by simp
          then show ?thesis using same unfolding same_orchestration_def by simp
        qed
        show ?thesis
        proof (cases sp)
          case (AwaitSleep attempt lastError ms)
          have "same_orchestration
            (s\<lparr>heap := (heap s)[item := fst (loop_head opts attempt lastError (heap s ! item))],
               workers := (workers s)[w := Busy item (snd (loop_head opts attempt lastError (heap s ! item)))]\<rparr>)
            (t\<lparr>heap := (heap t)[item := fst (loop_head opts attempt lastError (heap t ! item))],
               workers := (workers t)[w := Busy item (snd (loop_head opts attempt lastError (heap s ! item)))]\<rparr>)"
            by (rule same_orchestration_worker_cell[OF inv same True Busy])
          then show ?thesis using TimerFired True Busy AwaitSleep ws agree by simp
        qed (use same TimerFired True Busy ws in simp_all)
      qed
    qed
  next
    case (Resume w)
    show ?thesis
    proof (cases "w < length (workers s)")
      case False
      then show ?thesis using same Resume ws by simp
    next
      case True
      show ?thesis
      proof (cases "workers s ! w")
        case Finished
        then show ?thesis using same Resume True ws by simp
      next
        case (Busy item sp)
        show ?thesis
        proof (cases sp)
          case Returned
          define s2 where "s2 = (updateProgress opts Running s)\<lparr>active := active s - 1\<rparr>"
          define t2 where "t2 = (updateProgress opts Running t)\<lparr>active := active t - 1\<rparr>"
          have inb: "\<forall>a \<in> set (requests s). a < length (heap s)"
            using p(4) shape_ok_bounds(3)[OF p(1)] by simp
          have up: "same_orchestration (updateProgress opts Running s) (updateProgress opts Running t)"
            by (rule same_orchestration_updateProgress[OF same inb])
          have act: "active t = active s" using same unfolding same_orchestration_def by simp
          have s2: "same_orchestration s2 t2"
            using up unfolding s2_def t2_def same_orchestration_def by (simp add: act)
          have sh2: "shape_ok urls s2"
            unfolding s2_def using shape_ok_updateProgress[OF p(1)] by simp
          have rq2: "requests s2 = [0 ..< length urls]" using p(4) by (simp add: s2_def)
          note pn = same_orchestration_processNext[OF s2 sh2 rq2, of opts]
          have "same_orchestration
                  ((fst (processNext opts s2))\<lparr>workers := (workers s)[w := snd (processNext opts s2)]\<rparr>)
                  ((fst (processNext opts t2))\<lparr>workers := (workers t)[w := snd (processNext opts t2)]\<rparr>)"
            using pn ws unfolding same_orchestration_def by simp
          then show ?thesis
            using Resume True Busy Returned ws
            by (simp add: continue_processNext_eq s2_def t2_def)
        next
          case Threw
          define s2 where "s2 = s\<lparr>active := active s - 1\<rparr>"
          define t2 where "t2 = t\<lparr>active := active t - 1\<rparr>"
          have act: "active t = active s" and rt: "rethrows t = rethrows s"
            using same unfolding same_orchestration_def by simp_all
          have s2: "same_orchestration s2 t2"
            using same unfolding s2_def t2_def same_orchestration_def by (simp add: act)
          have sh2: "shape_ok urls s2" unfolding s2_def using p(1) by simp
          have rq2: "requests s2 = [0 ..< length urls]" using p(4) by (simp add: s2_def)
          note pn = same_orchestration_processNext[OF s2 sh2 rq2, of opts]
          have "same_orchestration
                  ((fst (processNext opts s2))\<lparr>workers := (workers s)[w := snd (processNext opts s2)],
                     rethrows := (rethrows s)[w := True]\<rparr>)
                  ((fst (processNext opts t2))\<lparr>workers := (workers t)[w := snd (processNext opts t2)],
                     rethrows := (rethrows t)[w := True]\<rparr>)"
            using pn ws rt unfolding same_orchestration_def by simp
          then show ?thesis
            using Resume True Busy Threw ws
            by (simp add: finally_processNext_eq s2_def t2_def)
        qed (use same Resume True Busy ws in simp_all)
      qed
    qed
  next
    case (ObserverWrite a r)
    then show ?thesis using e by simp
  qed
qed

lemma same_orchestration_observer:
  assumes inv: "task_inv urls n s" and same: "same_orchestration s t"
  shows "same_orchestration (step opts s (ObserverWrite a r)) t"
proof (cases "a \<in> observer_reach s")
  case False
  then show ?thesis using same by simp
next
  case True
  note p = task_inv_parts[OF inv]
  have a: "length urls \<le> a" using observer_reach_bounds[OF p(3) True] by blast
  have "(heap s)[a := r] ! x = heap t ! x" if "x \<in> set (requests s)" for x
  proof -
    have "x < length urls" using that p(4) by simp
    then have "x \<noteq> a" using a by simp
    then show ?thesis using same that unfolding same_orchestration_def by simp
  qed
  then show ?thesis using same True unfolding same_orchestration_def by simp
qed

lemma same_orchestration_run:
  "task_inv urls n s \<Longrightarrow> same_orchestration s t \<Longrightarrow>
   same_orchestration (run opts s sched) (run opts t (filter (\<lambda>e. \<not> is_observer_write e) sched))"
proof (induction sched arbitrary: s t)
  case Nil
  then show ?case by simp
next
  case (Cons e es)
  have inv': "task_inv urls n (step opts s e)" by (rule task_inv_step[OF Cons.prems(1)])
  show ?case
  proof (cases "is_observer_write e")
    case True
    then obtain a r where e: "e = ObserverWrite a r" by (cases e) simp_all
    have "same_orchestration (step opts s e) t"
      unfolding e by (rule same_orchestration_observer[OF Cons.prems])
    from Cons.IH[OF inv' this] True show ?thesis by simp
  next
    case False
    have "same_orchestration (step opts s e) (step opts t e)"
      by (rule same_orchestration_step[OF Cons.prems False])
    from Cons.IH[OF inv' this] False show ?thesis by simp
  qed
qed

lemma heap_processNext_behind:
  assumes sh: "shape_ok urls s" and a: "length urls \<le> a" "a < length (heap s)"
  shows "heap (fst (processNext opts s)) ! a = heap s ! a"
proof (cases "queue s")
  case Nil
  then show ?thesis by (simp add: processNext_Nil)
next
  case (Cons item rest)
  note b = shape_ok_bounds[OF sh]
  have "item < length urls" "item < length (heap s)" using b(1,4)[of item] Cons by simp_all
  then show ?thesis using processNext_heap(3)[OF Cons, of a opts] a by simp
qed

lemma step_keeps_snapshots:
  assumes inv: "task_inv urls n s" and e: "\<not> is_observer_write e" and a: "a \<in> observer_reach s"
  shows "heap (step opts s e) ! a = heap s ! a"
proof -
  note p = task_inv_parts[OF inv]
  have ab: "length urls \<le> a" "a < length (heap s)" using observer_reach_bounds[OF p(3) a] by simp_all
  have item: "item \<noteq> a" if "w < length (workers s)" "workers s ! w = Busy item sp" for w item sp
  proof -
    have "item \<in> set (dispatched s)" using workers_ok_Busy[OF p(2) that] by simp
    then have "item < length urls" by (rule shape_ok_bounds(2)[OF p(1)])
    then show ?thesis using ab by simp
  qed
  show ?thesis
  proof (cases e)
    case (TransferDone w b)
    then show ?thesis using item by (auto split: worker.splits suspension.splits)
  next
    case (TimerFired w)
    then show ?thesis using item by (auto split: worker.splits suspension.splits)
  next
    case (Resume w)
    define s2 where "s2 = (updateProgress opts Running s)\<lparr>active := active s - 1\<rparr>"
    have sh2: "shape_ok urls s2" unfolding s2_def using shape_ok_updateProgress[OF p(1)] by simp
    have a2: "a < length (heap s2)" using ab by (simp add: s2_def length_heap_updateProgress)
    have "heap (fst (processNext opts s2)) ! a = heap s2 ! a"
      by (rule heap_processNext_behind[OF sh2 ab(1) a2])
    also have "heap s2 ! a = heap s ! a" using ab by (simp add: s2_def)
    finally have c: "heap (fst (continue_processNext opts s)) ! a = heap s ! a"
      by (simp add: continue_processNext_eq s2_def)
    define s3 where "s3 = s\<lparr>active := active s - 1\<rparr>"
    have sh3: "shape_ok urls s3" unfolding s3_def using p(1) by simp
    have a3: "a < length (heap s3)" using ab by (simp add: s3_def)
    have "heap (fst (processNext opts s3)) ! a = heap s3 ! a"
      by (rule heap_processNext_behind[OF sh3 ab(1) a3])
    then have f: "heap (fst (finally_processNext opts s)) ! a = heap s ! a"
      by (simp add: finally_processNext_eq s3_def)
    show ?thesis using Resume c f by (auto split: worker.splits suspension.splits)
  next
    case (ObserverWrite a' r)
    then show ?thesis using e by simp
  qed
qed

lemma updateProgress_copies:
  assumes "onProgress opts"
  shows "map (\<lambda>a. heap (updateProgress opts st s) ! a)
           (entries (last (emitted (updateProgress opts st s)))) = live s"
proof -
  have "map (\<lambda>a. (heap s @ live s) ! a) [length (heap s) ..< length (heap s) + length (live s)]
        = live s"
    by (rule nth_equalityI) (simp_all add: nth_append)
  then show ?thesis using assms
    by (simp add: heap_updateProgress emitted_updateProgress live_def)
qed


lemma same_orchestration_collect:
  "same_orchestration s t \<Longrightarrow> collect s = collect t"
  unfolding same_orchestration_def collect_def
  by (auto intro!: filter_cong)

text \<open>
  C9. A snapshot carries value copies of the records, in new objects: after any events
  no object the observer can reach is a record of a request, nor one of the records
  handed back in the result; a run in which the
  observer overwrites objects of the snapshots it was given ends with the same result,
  the same records of the requests and the same snapshots delivered as the run without
  these writes; in the other direction, no step of the orchestrator changes an object of
  a snapshot already delivered; and when a snapshot is delivered its entries hold the
  values of the live records.
\<close>

theorem snapshot_isolation:
  "observer_reach (run (mergeOptions options) (started URL_pathname ids (mergeOptions options) urls) sched)
     \<inter> set (requests (run (mergeOptions options) (started URL_pathname ids (mergeOptions options) urls) sched))
     = {}
   \<and> (\<forall>res. fst (runDownloadTask URL_pathname ids urls options sched) = Fulfilled res \<longrightarrow>
          (set (result_successes res) \<union> set (result_failures res))
            \<inter> observer_reach (snd (runDownloadTask URL_pathname ids urls options sched)) = {})
   \<and> fst (runDownloadTask URL_pathname ids urls options sched)
     = fst (runDownloadTask URL_pathname ids urls options (filter (\<lambda>e. \<not> is_observer_write e) sched))
   \<and> live (snd (runDownloadTask URL_pathname ids urls options sched))
     = live (snd (runDownloadTask URL_pathname ids urls options (filter (\<lambda>e. \<not> is_observer_write e) sched)))
   \<and> emitted (snd (runDownloadTask URL_pathname ids urls options sched))
     = emitted (snd (runDownloadTask URL_pathname ids urls options (filter (\<lambda>e. \<not> is_observer_write e) sched)))
   \<and> (\<forall>e a. \<not> is_observer_write e
          \<and> a \<in> observer_reach (run (mergeOptions options) (started URL_pathname ids (mergeOptions options) urls) sched)
        \<longrightarrow> heap (step (mergeOptions options)
                    (run (mergeOptions options) (started URL_pathname ids (mergeOptions options) urls) sched) e) ! a
            = heap (run (mergeOptions options) (started URL_pathname ids (mergeOptions options) urls) sched) ! a)
   \<and> (\<forall>st s. onProgress (mergeOptions options) \<longrightarrow>
          map (\<lambda>a. heap (updateProgress (mergeOptions options) st s) ! a)
            (entries (last (emitted (updateProgress (mergeOptions options) st s)))) = live s)"
proof -
  define opts where "opts = mergeOptions options"
  define s where "s = run opts (started URL_pathname ids opts urls) sched"
  define t where "t = run opts (started URL_pathname ids opts urls) (filter (\<lambda>e. \<not> is_observer_write e) sched)"
  have inv: "task_inv urls (nat (concurrency opts)) s" unfolding s_def by (rule task_inv_reached)
  note p = task_inv_parts[OF inv]
  have same: "same_orchestration s t"
    unfolding s_def t_def
    by (rule same_orchestration_run[OF task_inv_started same_orchestration_refl])
  have 1: "observer_reach s \<inter> set (requests s) = {}"
  proof -
    have "a \<notin> set (requests s)" if "a \<in> observer_reach s" for a
      using observer_reach_bounds[OF p(3) that] p(4) by simp
    then show ?thesis by blast
  qed
  have 5: "\<forall>e a. \<not> is_observer_write e \<and> a \<in> observer_reach s \<longrightarrow> heap (step opts s e) ! a = heap s ! a"
    using step_keeps_snapshots[OF inv] by blast
  have 6: "\<forall>st s. onProgress opts \<longrightarrow>
          map (\<lambda>a. heap (updateProgress opts st s) ! a)
            (entries (last (emitted (updateProgress opts st s)))) = live s"
    using updateProgress_copies by blast
  have fin: "all_finished t = all_finished s" "worker_rejected t = worker_rejected s"
    using same unfolding same_orchestration_def all_finished_def worker_rejected_def by simp_all
  have inb: "\<forall>a \<in> set (requests s). a < length (heap s)"
    using p(4) shape_ok_bounds(3)[OF p(1)] by simp
  have same': "same_orchestration (updateProgress opts Completed s) (updateProgress opts Completed t)"
    by (rule same_orchestration_updateProgress[OF same inb])
  have 234: "fst (runDownloadTask URL_pathname ids urls options sched)
     = fst (runDownloadTask URL_pathname ids urls options (filter (\<lambda>e. \<not> is_observer_write e) sched))
   \<and> live (snd (runDownloadTask URL_pathname ids urls options sched))
     = live (snd (runDownloadTask URL_pathname ids urls options (filter (\<lambda>e. \<not> is_observer_write e) sched)))
   \<and> emitted (snd (runDownloadTask URL_pathname ids urls options sched))
     = emitted (snd (runDownloadTask URL_pathname ids urls options (filter (\<lambda>e. \<not> is_observer_write e) sched)))"
  proof (cases "urls = []")
    case True
    then show ?thesis by (simp add: runDownloadTask_def)
  next
    case False
    show ?thesis
    proof (cases "worker_rejected s")
      case True
      have "runDownloadTask URL_pathname ids urls options sched = (Rejected, s)"
        and "runDownloadTask URL_pathname ids urls options (filter (\<lambda>e. \<not> is_observer_write e) sched)
              = (Rejected, t)"
        using False True fin
        by (simp_all add: runDownloadTask_def Let_def s_def[symmetric] t_def[symmetric] opts_def[symmetric])
      then show ?thesis
        using same_orchestration_live[OF same] same unfolding same_orchestration_def by simp
    next
      case nr: False
      show ?thesis
      proof (cases "all_finished s")
        case True
        have "runDownloadTask URL_pathname ids urls options sched
                = (Fulfilled (collect (updateProgress opts Completed s)), updateProgress opts Completed s)"
          and "runDownloadTask URL_pathname ids urls options (filter (\<lambda>e. \<not> is_observer_write e) sched)
                = (Fulfilled (collect (updateProgress opts Completed t)), updateProgress opts Completed t)"
          using False True nr fin
          by (simp_all add: runDownloadTask_def Let_def s_def[symmetric] t_def[symmetric] opts_def[symmetric])
        then show ?thesis
          using same_orchestration_collect[OF same'] same_orchestration_live[OF same'] same'
          unfolding same_orchestration_def by simp
      next
        case nf: False
        have "runDownloadTask URL_pathname ids urls options sched = (Pending, s)"
          and "runDownloadTask URL_pathname ids urls options (filter (\<lambda>e. \<not> is_observer_write e) sched)
                = (Pending, t)"
          using False nf nr fin
          by (simp_all add: runDownloadTask_def Let_def s_def[symmetric] t_def[symmetric] opts_def[symmetric])
        then show ?thesis
          using same_orchestration_live[OF same] same unfolding same_orchestration_def by simp
      qed
    qed
  qed
  have 7: "(set (result_successes res) \<union> set (result_failures res))
            \<inter> observer_reach (snd (runDownloadTask URL_pathname ids urls options sched)) = {}"
    if r: "fst (runDownloadTask URL_pathname ids urls options sched) = Fulfilled res" for res
  proof (cases "urls = []")
    case True
    then have "res = \<lparr>result_successes = [], result_failures = []\<rparr>"
      using r by (simp add: runDownloadTask_def)
    then show ?thesis by simp
  next
    case False
    define s' where "s' = updateProgress opts Completed s"
    have "all_finished s \<and> \<not> worker_rejected s"
      using r False by (auto simp: runDownloadTask_def Let_def s_def opts_def split: if_splits)
    then have rd: "runDownloadTask URL_pathname ids urls options sched = (Fulfilled (collect s'), s')"
      using False by (simp add: runDownloadTask_def Let_def s_def opts_def s'_def)
    have inv': "task_inv urls (nat (concurrency opts)) s'"
      unfolding s'_def by (rule task_inv_updateProgress[OF inv])
    note p' = task_inv_parts[OF inv']
    have res: "res = collect s'" using r rd by simp
    have "a \<notin> observer_reach s'" if "a \<in> set (result_successes res) \<union> set (result_failures res)" for a
    proof -
      have "a \<in> set (requests s')" using that by (auto simp: res collect_def)
      then have "a < length urls" using p'(4) by simp
      then show ?thesis using observer_reach_bounds[OF p'(3), of a] by auto
    qed
    then show ?thesis using rd by auto
  qed
  show ?thesis
    using 1 234 5 6 7 unfolding s_def opts_def by blast
qed

theorem snapshot_isolation_witness:
  "fst (runDownloadTask Map.empty example_ids [''https://a/1.png'']
       \<lparr>opt_concurrency = Some 1, opt_maxRetries = Some 0, opt_retryDelayMs = None, opt_onProgress = True\<rparr>
       [ObserverWrite 1 \<lparr>request_id = ''x'', url = ''y'', filename = ''z'', status = success,
                          attempts = 7, error = Some ''changed''\<rparr>,
        TransferDone 0 (http_error 404), Resume 0])
   = fst (runDownloadTask Map.empty example_ids [''https://a/1.png'']
       \<lparr>opt_concurrency = Some 1, opt_maxRetries = Some 0, opt_retryDelayMs = None, opt_onProgress = True\<rparr>
       [TransferDone 0 (http_error 404), Resume 0])
   \<and> fst (runDownloadTask Map.empty example_ids [''https://a/1.png'']
       \<lparr>opt_concurrency = Some 1, opt_maxRetries = Some 0, opt_retryDelayMs = None, opt_onProgress = True\<rparr>
       [ObserverWrite 1 \<lparr>request_id = ''x'', url = ''y'', filename = ''z'', status = success,
                          attempts = 7, error = Some ''changed''\<rparr>,
        TransferDone 0 (http_error 404), Resume 0])
     = Fulfilled \<lparr>result_successes = [], result_failures = [0]\<rparr>
   \<and> status (heap (snd (runDownloadTask Map.empty example_ids [''https://a/1.png'']
       \<lparr>opt_concurrency = Some 1, opt_maxRetries = Some 0, opt_retryDelayMs = None, opt_onProgress = True\<rparr>
       [ObserverWrite 1 \<lparr>request_id = ''x'', url = ''y'', filename = ''z'', status = success,
                          attempts = 7, error = Some ''changed''\<rparr>,
        TransferDone 0 (http_error 404), Resume 0])) ! 1) = success"
proof -
  have ev: "fst (runDownloadTask Map.empty example_ids [''https://a/1.png'']
       \<lparr>opt_concurrency = Some 1, opt_maxRetries = Some 0, opt_retryDelayMs = None, opt_onProgress = True\<rparr>
       [ObserverWrite 1 \<lparr>request_id = ''x'', url = ''y'', filename = ''z'', status = success,
                          attempts = 7, error = Some ''changed''\<rparr>,
        TransferDone 0 (http_error 404), Resume 0])
     = Fulfilled \<lparr>result_successes = [], result_failures = [0]\<rparr>"
    "status (heap (snd (runDownloadTask Map.empty example_ids [''https://a/1.png'']
       \<lparr>opt_concurrency = Some 1, opt_maxRetries = Some 0, opt_retryDelayMs = None, opt_onProgress = True\<rparr>
       [ObserverWrite 1 \<lparr>request_id = ''x'', url = ''y'', filename = ''z'', status = success,
                          attempts = 7, error = Some ''changed''\<rparr>,
        TransferDone 0 (http_error 404), Resume 0])) ! 1) = success"
    by code_simp+
  have er: "filter (\<lambda>e. \<not> is_observer_write e)
       [ObserverWrite 1 \<lparr>request_id = ''x'', url = ''y'', filename = ''z'', status = success,
                          attempts = 7, error = Some ''changed''\<rparr>,
        TransferDone 0 (http_error 404), Resume 0]
     = [TransferDone 0 (http_error 404), Resume 0]"
    by simp
  have "fst (runDownloadTask Map.empty example_ids [''https://a/1.png'']
       \<lparr>opt_concurrency = Some 1, opt_maxRetries = Some 0, opt_retryDelayMs = None, opt_onProgress = True\<rparr>
       [ObserverWrite 1 \<lparr>request_id = ''x'', url = ''y'', filename = ''z'', status = success,
                          attempts = 7, error = Some ''changed''\<rparr>,
        TransferDone 0 (http_error 404), Resume 0])
   = fst (runDownloadTask Map.empty example_ids [''https://a/1.png'']
       \<lparr>opt_concurrency = Some 1, opt_maxRetries = Some 0, opt_retryDelayMs = None, opt_onProgress = True\<rparr>
       [TransferDone 0 (http_error 404), Resume 0])"
    using snapshot_isolation[of "\<lparr>opt_concurrency = Some 1, opt_maxRetries = Some 0, opt_retryDelayMs = None, opt_onProgress = True\<rparr>"
        Map.empty example_ids "[''https://a/1.png'']"
        "[ObserverWrite 1 \<lparr>request_id = ''x'', url = ''y'', filename = ''z'', status = success,
                          attempts = 7, error = Some ''changed''\<rparr>,
          TransferDone 0 (http_error 404), Resume 0]"]
    unfolding er by blast
  with ev show ?thesis by blast
qed


section \<open>Failures of a transfer\<close>

subsection \<open>Every task comes to an end\<close>

lemma step_not_enabled: "\<not> enabled s e \<Longrightarrow> step opts s e = s"
  by (cases e) (auto split: worker.splits suspension.splits)

lemma sum_list_map_update:
  "w < length ws \<Longrightarrow>
   sum_list (map f (ws[w := x])) + f (ws ! w) = sum_list (map f ws) + (f x :: nat)"
proof (induction ws arbitrary: w)
  case Nil
  then show ?case by simp
next
  case (Cons y ys)
  then show ?case by (cases w) auto
qed

lemma steps_left_transfer_settled:
  "steps_left opts (Busy item (snd (transfer_settled opts attempt lastError out r)))
   < steps_left opts (Busy item (AwaitTransfer attempt lastError))"
  by (cases out) (auto simp: transfer_settled_def Let_def split: option.splits)

lemma steps_left_loop_head:
  "steps_left opts (Busy item (snd (loop_head opts attempt lastError r)))
   < steps_left opts (Busy item (AwaitSleep attempt lastError ms))"
  by (auto simp: loop_head_def)

lemma steps_left_first:
  "steps_left opts (Busy item (snd (loop_head opts 0 None r))) < 2 * nat (maxRetries opts) + 3"
  by (auto simp: loop_head_def)

lemma potential_processNext:
  "steps_left opts (snd (processNext opts s))
   + length (queue (fst (processNext opts s))) * (2 * nat (maxRetries opts) + 3)
   \<le> length (queue s) * (2 * nat (maxRetries opts) + 3)"
proof (cases "queue s")
  case Nil
  then show ?thesis by (simp add: processNext_Nil)
next
  case (Cons item rest)
  have "snd (processNext opts s) =
     Busy item (snd (loop_head opts 0 None
        (heap (updateProgress opts Running
           (s\<lparr>queue := rest, active := active s + 1,
              heap := (heap s)[item := (heap s ! item)\<lparr>status := downloading\<rparr>]\<rparr>)) ! item)))"
    using Cons by (simp add: processNext_def call_downloadWithRetry_def)
  then have "steps_left opts (snd (processNext opts s)) < 2 * nat (maxRetries opts) + 3"
    using steps_left_first by simp
  then show ?thesis using processNext_fields(2)[OF Cons, of opts] Cons by simp
qed

lemma potential_ignores [simp]:
  "potential opts (s\<lparr>rethrows := rs\<rparr>) = potential opts s"
  by (simp add: potential_def)

lemma potential_resume:
  assumes w: "w < length (workers s)" "steps_left opts (workers s ! w) = 1"
    and q2: "queue s2 = queue s"
  shows "potential opts ((fst (processNext opts s2))\<lparr>workers := (workers s)[w := snd (processNext opts s2)]\<rparr>) + 1
         \<le> potential opts s"
proof -
  let ?wk = "snd (processNext opts s2)"
  have "sum_list (map (steps_left opts) ((workers s)[w := ?wk])) + steps_left opts (workers s ! w)
        = sum_list (map (steps_left opts) (workers s)) + steps_left opts ?wk"
    by (rule sum_list_map_update[OF w(1)])
  then have a: "sum_list (map (steps_left opts) ((workers s)[w := ?wk])) + 1
        = sum_list (map (steps_left opts) (workers s)) + steps_left opts ?wk"
    using w(2) by simp
  have b: "steps_left opts ?wk
        + length (queue (fst (processNext opts s2))) * (2 * nat (maxRetries opts) + 3)
        \<le> length (queue s) * (2 * nat (maxRetries opts) + 3)"
    using potential_processNext[of opts s2] q2 by simp
  show ?thesis using a b by (simp add: potential_def)
qed

lemma potential_step:
  "potential opts (step opts s e) + (if enabled s e \<and> \<not> is_observer_write e then 1 else 0)
   \<le> potential opts s"
proof (cases "enabled s e")
  case False
  then show ?thesis by (simp add: step_not_enabled)
next
  case True
  show ?thesis
  proof (cases e)
    case (TransferDone w b)
    then obtain item attempt lastError where
      w: "w < length (workers s)" "workers s ! w = Busy item (AwaitTransfer attempt lastError)"
      using True by (auto split: worker.splits suspension.splits)
    let ?wk = "Busy item (snd (transfer_settled opts attempt lastError (downloadFile b) (heap s ! item)))"
    have "sum_list (map (steps_left opts) ((workers s)[w := ?wk])) + steps_left opts (workers s ! w)
          = sum_list (map (steps_left opts) (workers s)) + steps_left opts ?wk"
      by (rule sum_list_map_update[OF w(1)])
    moreover have "steps_left opts ?wk < steps_left opts (workers s ! w)"
      unfolding w(2) by (rule steps_left_transfer_settled)
    ultimately have "sum_list (map (steps_left opts) ((workers s)[w := ?wk])) + 1
          \<le> sum_list (map (steps_left opts) (workers s))" by linarith
    then show ?thesis using TransferDone w by (simp add: potential_def)
  next
    case (TimerFired w)
    then obtain item attempt lastError ms where
      w: "w < length (workers s)" "workers s ! w = Busy item (AwaitSleep attempt lastError ms)"
      using True by (auto split: worker.splits suspension.splits)
    let ?wk = "Busy item (snd (loop_head opts attempt lastError (heap s ! item)))"
    have "sum_list (map (steps_left opts) ((workers s)[w := ?wk])) + steps_left opts (workers s ! w)
          = sum_list (map (steps_left opts) (workers s)) + steps_left opts ?wk"
      by (rule sum_list_map_update[OF w(1)])
    moreover have "steps_left opts ?wk < steps_left opts (workers s ! w)"
      unfolding w(2) by (rule steps_left_loop_head)
    ultimately have "sum_list (map (steps_left opts) ((workers s)[w := ?wk])) + 1
          \<le> sum_list (map (steps_left opts) (workers s))" by linarith
    then show ?thesis using TimerFired w by (simp add: potential_def)
  next
    case (Resume w)
    then consider item where "w < length (workers s)" "workers s ! w = Busy item Returned"
      | item where "w < length (workers s)" "workers s ! w = Busy item Threw"
      using True by (auto split: worker.splits suspension.splits)
    then show ?thesis
    proof cases
      case 1
      define s2 where "s2 = (updateProgress opts Running s)\<lparr>active := active s - 1\<rparr>"
      have "potential opts ((fst (processNext opts s2))\<lparr>workers := (workers s)[w := snd (processNext opts s2)]\<rparr>) + 1
            \<le> potential opts s"
        by (rule potential_resume) (simp_all add: 1 s2_def)
      then show ?thesis using Resume 1 True by (simp add: continue_processNext_eq s2_def)
    next
      case 2
      define s2 where "s2 = s\<lparr>active := active s - 1\<rparr>"
      have "potential opts ((fst (processNext opts s2))\<lparr>workers := (workers s)[w := snd (processNext opts s2)]\<rparr>) + 1
            \<le> potential opts s"
        by (rule potential_resume) (simp_all add: 2 s2_def)
      then show ?thesis using Resume 2 True by (simp add: finally_processNext_eq s2_def potential_def)
    qed
  next
    case (ObserverWrite a r)
    then show ?thesis by (simp add: potential_def)
  qed
qed

lemma effective_bound:
  "effective opts s sched + potential opts (run opts s sched) \<le> potential opts s"
proof (induction sched arbitrary: s)
  case Nil
  then show ?case by simp
next
  case (Cons e es)
  from Cons[of "step opts s e"] potential_step[of opts s e] show ?case by simp
qed

lemma potential_launch: "potential opts (launch opts k s) \<le> potential opts s"
proof (induction k arbitrary: s)
  case 0
  then show ?case by simp
next
  case (Suc k)
  let ?s' = "(fst (processNext opts s))
      \<lparr>workers := workers s @ [snd (processNext opts s)], rethrows := rethrows s @ [False]\<rparr>"
  have "potential opts ?s' \<le> potential opts s"
    using potential_processNext[of opts s] by (simp add: potential_def)
  with Suc[of ?s'] show ?case by simp
qed

lemma potential_started:
  "potential opts (started URL_pathname ids opts urls) \<le> length urls * (2 * nat (maxRetries opts) + 3)"
proof -
  have "potential opts (updateProgress opts Idle (initial_state URL_pathname ids urls))
        = length urls * (2 * nat (maxRetries opts) + 3)"
    by (simp add: potential_def initial_state_def)
  then show ?thesis using potential_launch[of opts "nat (concurrency opts)"
      "updateProgress opts Idle (initial_state URL_pathname ids urls)"]
    by (simp add: started_def)
qed

text \<open>
  Whatever the transfers do, no more than \<open>2 * maxRetries + 3\<close> events per URL happen to
  the workers of a task.
\<close>

lemma events_bounded:
  "effective opts (started URL_pathname ids opts urls) sched
     \<le> length urls * (2 * nat (maxRetries opts) + 3)"
  using effective_bound[of opts "started URL_pathname ids opts urls" sched]
    potential_started[of opts URL_pathname ids urls] by linarith

lemma transfer_ok_Ok: "downloadFile transfer_ok = Ok"
  by (simp add: downloadFile_def transfer_ok_def)

text \<open>A worker that has not finished waits for an event, which need not be a failure.\<close>

lemma progress:
  assumes "\<not> all_finished s"
  shows "\<exists>e. enabled s e \<and> \<not> is_observer_write e \<and> \<not> throws_unconvertible e"
proof -
  obtain w where w: "w < length (workers s)" "workers s ! w \<noteq> Finished"
    using assms unfolding all_finished_def by (auto simp: list_all_length)
  then obtain item sp where b: "workers s ! w = Busy item sp" by (cases "workers s ! w") auto
  show ?thesis
  proof (cases sp)
    case (AwaitTransfer attempt lastError)
    then have "enabled s (TransferDone w transfer_ok)" using w b by simp
    then show ?thesis by (intro exI[of _ "TransferDone w transfer_ok"]) (simp add: transfer_ok_Ok)
  next
    case (AwaitSleep attempt lastError ms)
    then have "enabled s (TimerFired w)" using w b by simp
    then show ?thesis by (intro exI[of _ "TimerFired w"]) simp
  next
    case Returned
    then have "enabled s (Resume w)" using w b by simp
    then show ?thesis by (intro exI[of _ "Resume w"]) simp
  next
    case Threw
    then have "enabled s (Resume w)" using w b by simp
    then show ?thesis by (intro exI[of _ "Resume w"]) simp
  qed
qed

lemma run_append: "run opts s (xs @ ys) = run opts (run opts s xs) ys"
  by (induction xs arbitrary: s) simp_all

lemma can_complete:
  "\<exists>more. list_all (\<lambda>e. \<not> throws_unconvertible e) more \<and> all_finished (run opts s more)"
proof (induction "potential opts s" arbitrary: s rule: less_induct)
  case less
  show ?case
  proof (cases "all_finished s")
    case True
    then have "list_all (\<lambda>e. \<not> throws_unconvertible e) [] \<and> all_finished (run opts s [])" by simp
    then show ?thesis by blast
  next
    case False
    then obtain e where e: "enabled s e" "\<not> is_observer_write e" "\<not> throws_unconvertible e"
      using progress by blast
    then have "potential opts (step opts s e) < potential opts s"
      using potential_step[of opts s e] by simp
    from less[OF this] obtain more where
      "list_all (\<lambda>e. \<not> throws_unconvertible e) more" "all_finished (run opts (step opts s e) more)"
      by blast
    then have "list_all (\<lambda>e. \<not> throws_unconvertible e) (e # more) \<and> all_finished (run opts s (e # more))"
      using e(3) by simp
    then show ?thesis by blast
  qed
qed

subsection \<open>A failure the \<open>catch\<close> clause takes\<close>

lemma failure_is_local:
  assumes inv: "task_inv urls n s"
    and w: "w < length (workers s)" "workers s ! w = Busy item (AwaitTransfer attempt lastError)"
    and f: "downloadFile b = Throws e" "e = ErrorInstance m \<or> e = OtherValue m"
  shows "error (heap (step opts s (TransferDone w b)) ! item) = Some m"
    and "maxRetries opts \<le> int attempt \<Longrightarrow>
           status (heap (step opts s (TransferDone w b)) ! item) = failed
           \<and> workers (step opts s (TransferDone w b)) ! w = Busy item Returned"
    and "int attempt < maxRetries opts \<Longrightarrow>
           status (heap (step opts s (TransferDone w b)) ! item) = downloading"
    and "\<And>a. a \<noteq> item \<Longrightarrow> heap (step opts s (TransferDone w b)) ! a = heap s ! a"
    and "requests (step opts s (TransferDone w b)) = requests s"
    and "queue (step opts s (TransferDone w b)) = queue s"
    and "dispatched (step opts s (TransferDone w b)) = dispatched s"
    and "emitted (step opts s (TransferDone w b)) = emitted s"
    and "rethrows (step opts s (TransferDone w b)) = rethrows s"
    and "\<And>w'. w' \<noteq> w \<Longrightarrow> workers (step opts s (TransferDone w b)) ! w' = workers s ! w'"
proof -
  note p = task_inv_parts[OF inv]
  have item: "item \<in> set (dispatched s)" and cons: "consistent (heap s ! item) (AwaitTransfer attempt lastError)"
    using workers_ok_Busy[OF p(2) w] by simp_all
  have il: "item < length (heap s)" using shape_ok_bounds(5)[OF p(1) item] .
  have dl: "status (heap s ! item) = downloading" using cons by (simp add: consistent_def)
  have m: "message_of e = Some m" using f(2) by auto
  have st: "step opts s (TransferDone w b) =
      s\<lparr>heap := (heap s)[item := fst (transfer_settled opts attempt lastError (Throws e) (heap s ! item))],
        workers := (workers s)[w := Busy item (snd (transfer_settled opts attempt lastError (Throws e) (heap s ! item)))]\<rparr>"
    using w f by simp
  show "error (heap (step opts s (TransferDone w b)) ! item) = Some m"
    unfolding st using il m by (simp add: transfer_settled_def finish_def Let_def)
  show "maxRetries opts \<le> int attempt \<Longrightarrow>
           status (heap (step opts s (TransferDone w b)) ! item) = failed
           \<and> workers (step opts s (TransferDone w b)) ! w = Busy item Returned"
    unfolding st using il w(1) m by (simp add: transfer_settled_def finish_def Let_def)
  show "int attempt < maxRetries opts \<Longrightarrow>
           status (heap (step opts s (TransferDone w b)) ! item) = downloading"
    unfolding st using il dl m by (simp add: transfer_settled_def Let_def)
  show "\<And>a. a \<noteq> item \<Longrightarrow> heap (step opts s (TransferDone w b)) ! a = heap s ! a"
    unfolding st by simp
  show "requests (step opts s (TransferDone w b)) = requests s"
    and "queue (step opts s (TransferDone w b)) = queue s"
    and "dispatched (step opts s (TransferDone w b)) = dispatched s"
    and "emitted (step opts s (TransferDone w b)) = emitted s"
    and "rethrows (step opts s (TransferDone w b)) = rethrows s"
    unfolding st by simp_all
  show "\<And>w'. w' \<noteq> w \<Longrightarrow> workers (step opts s (TransferDone w b)) ! w' = workers s ! w'"
    unfolding st by simp
qed

subsection \<open>No exception without a failure of the \<open>catch\<close> clause\<close>

lemma no_exceptionI:
  assumes "True \<notin> set (rethrows s)"
    and "\<And>w item. w < length (workers s) \<Longrightarrow> workers s ! w \<noteq> Busy item Threw"
  shows "no_exception s"
proof -
  have "case wk of Busy item Threw \<Rightarrow> False | _ \<Rightarrow> True" if wk: "wk \<in> set (workers s)" for wk
  proof -
    obtain w where "w < length (workers s)" "workers s ! w = wk"
      using wk by (auto simp: in_set_conv_nth)
    then have "wk \<noteq> Busy item Threw" for item using assms(2) by blast
    then show ?thesis by (auto split: worker.splits suspension.splits)
  qed
  then show ?thesis using assms(1) unfolding no_exception_def list_all_iff by blast
qed

lemma no_exceptionD:
  assumes "no_exception s"
  shows "True \<notin> set (rethrows s)"
    and "w < length (workers s) \<Longrightarrow> workers s ! w \<noteq> Busy item Threw"
proof -
  show "True \<notin> set (rethrows s)" using assms unfolding no_exception_def by blast
  assume w: "w < length (workers s)"
  have "case workers s ! w of Busy item Threw \<Rightarrow> False | _ \<Rightarrow> True"
    using assms w unfolding no_exception_def list_all_length by blast
  then show "workers s ! w \<noteq> Busy item Threw" by auto
qed

lemma transfer_settled_Threw:
  "snd (transfer_settled opts attempt lastError out r) = Threw \<longleftrightarrow> out = Throws Unconvertible"
  by (cases out) (auto simp: transfer_settled_def Let_def split: option.splits)

lemma loop_head_not_Threw: "snd (loop_head opts attempt lastError r) \<noteq> Threw"
  by (simp add: loop_head_def)

lemma processNext_not_Threw: "snd (processNext opts s) \<noteq> Busy item Threw"
  by (cases "queue s") (simp_all add: processNext_def call_downloadWithRetry_def loop_head_not_Threw)

lemma no_exception_update:
  assumes ne: "no_exception s" and wk: "\<And>item. wk \<noteq> Busy item Threw"
    and ws: "workers s' = (workers s)[w := wk] \<or> workers s' = workers s @ [wk]"
    and rt: "True \<notin> set (rethrows s')"
  shows "no_exception s'"
proof (rule no_exceptionI[OF rt])
  fix w' item
  assume w': "w' < length (workers s')"
  from ws show "workers s' ! w' \<noteq> Busy item Threw"
  proof
    assume u: "workers s' = (workers s)[w := wk]"
    then show ?thesis
      using w' wk no_exceptionD(2)[OF ne, of w' item] by (cases "w' = w") simp_all
  next
    assume a: "workers s' = workers s @ [wk]"
    then show ?thesis
      using w' wk no_exceptionD(2)[OF ne, of w' item] by (cases "w' < length (workers s)") (simp_all add: nth_append)
  qed
qed

lemma no_exception_step:
  assumes ne: "no_exception s" and e: "\<not> throws_unconvertible e"
  shows "no_exception (step opts s e)"
proof (cases "enabled s e")
  case False
  then show ?thesis using ne by (simp add: step_not_enabled)
next
  case True
  note rt = no_exceptionD(1)[OF ne]
  show ?thesis
  proof (cases e)
    case (TransferDone w b)
    then obtain item attempt lastError where
      w: "w < length (workers s)" "workers s ! w = Busy item (AwaitTransfer attempt lastError)"
      using True by (auto split: worker.splits suspension.splits)
    have "downloadFile b \<noteq> Throws Unconvertible" using e TransferDone by simp
    then have "snd (transfer_settled opts attempt lastError (downloadFile b) (heap s ! item)) \<noteq> Threw"
      by (simp add: transfer_settled_Threw)
    then show ?thesis
      using TransferDone w rt
      by (intro no_exception_update[OF ne, where w = w
            and wk = "Busy item (snd (transfer_settled opts attempt lastError (downloadFile b) (heap s ! item)))"])
         simp_all
  next
    case (TimerFired w)
    then obtain item attempt lastError ms where
      w: "w < length (workers s)" "workers s ! w = Busy item (AwaitSleep attempt lastError ms)"
      using True by (auto split: worker.splits suspension.splits)
    show ?thesis
      using TimerFired w rt loop_head_not_Threw
      by (intro no_exception_update[OF ne, where w = w
            and wk = "Busy item (snd (loop_head opts attempt lastError (heap s ! item)))"])
         simp_all
  next
    case (Resume w)
    then obtain item where w: "w < length (workers s)" "workers s ! w = Busy item Returned"
      using True no_exceptionD(2)[OF ne, of w] by (auto split: worker.splits suspension.splits)
    show ?thesis
      using Resume w rt processNext_not_Threw
      by (intro no_exception_update[OF ne, where w = w and wk = "snd (continue_processNext opts s)"])
         (simp_all add: continue_processNext_eq)
  next
    case (ObserverWrite a r)
    then show ?thesis using ne by (auto simp: no_exception_def)
  qed
qed

lemma no_exception_run:
  "no_exception s \<Longrightarrow> list_all (\<lambda>e. \<not> throws_unconvertible e) sched \<Longrightarrow>
   no_exception (run opts s sched)"
  by (induction sched arbitrary: s) (simp_all add: no_exception_step)

lemma no_exception_launch: "no_exception s \<Longrightarrow> no_exception (launch opts k s)"
proof (induction k arbitrary: s)
  case 0
  then show ?case by simp
next
  case (Suc k)
  let ?s' = "(fst (processNext opts s))
      \<lparr>workers := workers s @ [snd (processNext opts s)], rethrows := rethrows s @ [False]\<rparr>"
  have "no_exception ?s'"
    using no_exceptionD(1)[OF Suc.prems] processNext_not_Threw
    by (intro no_exception_update[OF Suc.prems, where w = 0 and wk = "snd (processNext opts s)"])
       simp_all
  from Suc.IH[OF this] show ?case by simp
qed

lemma no_exception_started: "no_exception (started URL_pathname ids opts urls)"
proof -
  have "no_exception (updateProgress opts Idle (initial_state URL_pathname ids urls))"
    by (rule no_exceptionI) (simp_all add: initial_state_def)
  then show ?thesis unfolding started_def by (rule no_exception_launch)
qed

lemma no_exception_not_rejected: "no_exception s \<Longrightarrow> \<not> worker_rejected s"
  unfolding worker_rejected_def list_ex_iff using no_exceptionD(1) by (auto dest: set_zip_rightD)

text \<open>
  So the promise of \<^verbatim>\<open>runDownloadTask\<close> is rejected only after a transfer has thrown a
  value that the \<^verbatim>\<open>catch\<close> clause cannot convert: under any other events it is pending or
  fulfilled, and it can always be brought to a result.
\<close>

lemma rejection_needs_unconvertible:
  assumes "list_all (\<lambda>e. \<not> throws_unconvertible e) sched"
  shows "fst (runDownloadTask URL_pathname ids urls options sched) \<noteq> Rejected"
    and "\<exists>more res. fst (runDownloadTask URL_pathname ids urls options (sched @ more)) = Fulfilled res"
proof -
  define opts where "opts = mergeOptions options"
  define s where "s = run opts (started URL_pathname ids opts urls) sched"
  have ne: "no_exception s"
    unfolding s_def by (rule no_exception_run[OF no_exception_started assms])
  show "fst (runDownloadTask URL_pathname ids urls options sched) \<noteq> Rejected"
    using no_exception_not_rejected[OF ne]
    by (simp add: runDownloadTask_def Let_def s_def opts_def)
  show "\<exists>more res. fst (runDownloadTask URL_pathname ids urls options (sched @ more)) = Fulfilled res"
  proof (cases "urls = []")
    case True
    then show ?thesis by (simp add: runDownloadTask_def)
  next
    case False
    obtain more where more: "list_all (\<lambda>e. \<not> throws_unconvertible e) more" "all_finished (run opts s more)"
      using can_complete by blast
    have "no_exception (run opts s more)" by (rule no_exception_run[OF ne more(1)])
    then have "\<not> worker_rejected (run opts s more)" by (rule no_exception_not_rejected)
    then have "\<exists>res. fst (runDownloadTask URL_pathname ids urls options (sched @ more)) = Fulfilled res"
      using False more(2) by (simp add: runDownloadTask_def Let_def run_append s_def opts_def)
    then show ?thesis by blast
  qed
qed

text \<open>
  Two URLs and two workers; the network is down for the first transfer and the write of
  the second file is refused with a value that is no \<^verbatim>\<open>Error\<close>. Both requests end failed
  after one attempt (no retries are allowed), each with its own message, and the task
  returns its result.
\<close>

lemma ordinary_failures_example:
  "fst (runDownloadTask Map.empty example_ids [''https://a/1.png'', ''https://a/2.png'']
       \<lparr>opt_concurrency = Some 2, opt_maxRetries = Some 0, opt_retryDelayMs = None, opt_onProgress = True\<rparr>
       [TransferDone 0 network_down, TransferDone 1 save_denied, Resume 0, Resume 1])
     = Fulfilled \<lparr>result_successes = [], result_failures = [0, 1]\<rparr>
   \<and> map (\<lambda>r. (status r, attempts r, error r))
       (live (snd (runDownloadTask Map.empty example_ids [''https://a/1.png'', ''https://a/2.png'']
         \<lparr>opt_concurrency = Some 2, opt_maxRetries = Some 0, opt_retryDelayMs = None, opt_onProgress = True\<rparr>
         [TransferDone 0 network_down, TransferDone 1 save_denied, Resume 0, Resume 1])))
     = [(failed, 1, Some ''Failed to fetch''), (failed, 1, Some ''write denied'')]"
  by code_simp

subsection \<open>A failure the \<open>catch\<close> clause does not take\<close>

text \<open>
  When the thrown value cannot be converted, the step leaves the record of the request
  as it was, \<^verbatim>\<open>downloading\<close>, and the retry engine has thrown; when the worker runs on,
  it takes the next request, if there is one, and holds an exception from then on.
\<close>

lemma unconvertible_is_not_recorded:
  assumes inv: "task_inv urls n s"
    and w: "w < length (workers s)" "workers s ! w = Busy item (AwaitTransfer attempt lastError)"
    and f: "downloadFile b = Throws Unconvertible"
  shows "heap (step opts s (TransferDone w b)) = heap s"
    and "status (heap (step opts s (TransferDone w b)) ! item) = downloading"
    and "workers (step opts s (TransferDone w b)) ! w = Busy item Threw"
    and "rethrows (run opts s [TransferDone w b, Resume w]) ! w"
proof -
  note p = task_inv_parts[OF inv]
  have cons: "consistent (heap s ! item) (AwaitTransfer attempt lastError)"
    using workers_ok_Busy[OF p(2) w] by simp
  have st: "step opts s (TransferDone w b) = s\<lparr>heap := (heap s)[item := heap s ! item],
        workers := (workers s)[w := Busy item Threw]\<rparr>"
    using w f by (simp add: transfer_settled_def)
  show "heap (step opts s (TransferDone w b)) = heap s" unfolding st by simp
  show "status (heap (step opts s (TransferDone w b)) ! item) = downloading"
    unfolding st using cons by (simp add: consistent_def)
  show "workers (step opts s (TransferDone w b)) ! w = Busy item Threw"
    unfolding st using w(1) by simp
  define s1 where "s1 = step opts s (TransferDone w b)"
  have w1: "w < length (workers s1)" "workers s1 ! w = Busy item Threw" "rethrows s1 = rethrows s"
    unfolding s1_def st using w(1) by simp_all
  have "step opts s1 (Resume w) =
      (fst (finally_processNext opts s1))
        \<lparr>workers := (workers s1)[w := snd (finally_processNext opts s1)],
         rethrows := (rethrows s1)[w := True]\<rparr>"
    using w1(1,2) by simp
  then have "rethrows (step opts s1 (Resume w)) ! w" using w(1) p(6) w1(3) by simp
  then show "rethrows (run opts s [TransferDone w b, Resume w]) ! w" by (simp add: s1_def)
qed

text \<open>
  C8. The claim does not hold of the code. \<^verbatim>\<open>downloadWithRetry\<close> means to take every failure
  of a transfer in its \<^verbatim>\<open>catch\<close> clause, but the clause converts what was thrown with
  \<^verbatim>\<open>String(error)\<close>, and this call throws on a value such as \<^verbatim>\<open>Object.create(null)\<close>.
  The exception leaves \<^verbatim>\<open>downloadWithRetry\<close>; \<^verbatim>\<open>processNext\<close> has no \<^verbatim>\<open>catch\<close> clause, so it
  leaves the worker, \<^verbatim>\<open>Promise.all\<close> and \<^verbatim>\<open>runDownloadTask\<close> as well.

  One URL, the default options but for one worker and an observer, and a save that is
  rejected with such a value: the promise of \<^verbatim>\<open>runDownloadTask\<close> is rejected after a
  single attempt; the request is left \<^verbatim>\<open>downloading\<close>, with no error recorded; and the
  observer has seen the snapshots \<^verbatim>\<open>idle\<close> and \<^verbatim>\<open>running\<close> and never sees \<^verbatim>\<open>completed\<close>.
\<close>

theorem unconvertible_failure_rejects:
  "fst (runDownloadTask Map.empty example_ids [''https://a/1.png'']
       \<lparr>opt_concurrency = Some 1, opt_maxRetries = None, opt_retryDelayMs = None, opt_onProgress = True\<rparr>
       [TransferDone 0 save_throws_bare_object, Resume 0]) = Rejected
   \<and> map (\<lambda>r. (status r, attempts r, error r))
       (live (snd (runDownloadTask Map.empty example_ids [''https://a/1.png'']
         \<lparr>opt_concurrency = Some 1, opt_maxRetries = None, opt_retryDelayMs = None, opt_onProgress = True\<rparr>
         [TransferDone 0 save_throws_bare_object, Resume 0])))
     = [(downloading, 1, None)]
   \<and> map snapshot_status
       (emitted (snd (runDownloadTask Map.empty example_ids [''https://a/1.png'']
         \<lparr>opt_concurrency = Some 1, opt_maxRetries = None, opt_retryDelayMs = None, opt_onProgress = True\<rparr>
         [TransferDone 0 save_throws_bare_object, Resume 0])))
     = [Idle, Running]"
  by code_simp

section \<open>Concurrency\<close>

text \<open>
  Whatever the events are, the requests dispatched so far followed by the queue are the
  requests, each once: no request is dispatched twice or lost. When all workers have
  finished, and there is at least one, every request has been dispatched.
\<close>

lemma dispatched_once:
  "dispatched (run opts (started URL_pathname ids opts urls) sched)
     @ queue (run opts (started URL_pathname ids opts urls) sched)
   = requests (run opts (started URL_pathname ids opts urls) sched)"
  "distinct (requests (run opts (started URL_pathname ids opts urls) sched))"
  "1 \<le> concurrency opts \<Longrightarrow> all_finished (run opts (started URL_pathname ids opts urls) sched) \<Longrightarrow>
   dispatched (run opts (started URL_pathname ids opts urls) sched)
   = requests (run opts (started URL_pathname ids opts urls) sched)"
proof -
  let ?s = "run opts (started URL_pathname ids opts urls) sched"
  have inv: "task_inv urls (nat (concurrency opts)) ?s" by (rule task_inv_reached)
  note p = task_inv_parts[OF inv]
  show "dispatched ?s @ queue ?s = requests ?s" using p(1,4) unfolding shape_ok_def by simp
  show "distinct (requests ?s)" using p(4) by simp
  assume c: "1 \<le> concurrency opts" and fin: "all_finished ?s"
  have "workers ?s \<noteq> []" using c by (simp flip: length_0_conv)
  from finished_queue_empty(2)[OF inv fin this] p(4) show "dispatched ?s = requests ?s" by simp
qed

text \<open>
  As long as no worker holds an exception, no more than \<open>concurrency\<close> requests are
  \<^verbatim>\<open>downloading\<close>.
\<close>

lemma downloading_bounded_without_exception:
  assumes "True \<notin> set (rethrows (run opts (started URL_pathname ids opts urls) sched))"
  shows "length (filter (\<lambda>r. status r = downloading)
           (live (run opts (started URL_pathname ids opts urls) sched))) \<le> nat (concurrency opts)"
  using downloading_bound[OF task_inv_reached assms] by simp

text \<open>
  C4. The first half of the claim does not hold of the code; the second half does
  (\<open>dispatched_once\<close>). When the \<^verbatim>\<open>catch\<close> clause of \<^verbatim>\<open>downloadWithRetry\<close> throws (see C8),
  the status of the request is never set to \<^verbatim>\<open>failed\<close>: it stays \<^verbatim>\<open>downloading\<close>, while
  the \<^verbatim>\<open>finally\<close> block of \<^verbatim>\<open>processNext\<close> takes the next request from the queue and sets
  it to \<^verbatim>\<open>downloading\<close> too.

  Three URLs, \<open>concurrency = 1\<close>, and a save that is rejected with a value \<^verbatim>\<open>String\<close>
  cannot convert: after the first transfer has ended and the worker has run on, two
  requests are \<^verbatim>\<open>downloading\<close>, and after the second, three. The snapshots delivered to
  the observer show the same counts.
\<close>

theorem downloading_exceeds_concurrency:
  "concurrency (mergeOptions
       \<lparr>opt_concurrency = Some 1, opt_maxRetries = None, opt_retryDelayMs = None, opt_onProgress = True\<rparr>) = 1
   \<and> map status
       (live (snd (runDownloadTask Map.empty example_ids
         [''https://a/1.png'', ''https://a/2.png'', ''https://a/3.png'']
         \<lparr>opt_concurrency = Some 1, opt_maxRetries = None, opt_retryDelayMs = None, opt_onProgress = True\<rparr>
         [TransferDone 0 save_throws_bare_object, Resume 0])))
     = [downloading, downloading, pending]
   \<and> length (filter (\<lambda>r. status r = downloading)
       (live (snd (runDownloadTask Map.empty example_ids
         [''https://a/1.png'', ''https://a/2.png'', ''https://a/3.png'']
         \<lparr>opt_concurrency = Some 1, opt_maxRetries = None, opt_retryDelayMs = None, opt_onProgress = True\<rparr>
         [TransferDone 0 save_throws_bare_object, Resume 0,
          TransferDone 0 save_throws_bare_object, Resume 0])))) = 3
   \<and> map (\<lambda>snap. length (filter (\<lambda>a. status (heap (snd (runDownloadTask Map.empty example_ids
         [''https://a/1.png'', ''https://a/2.png'', ''https://a/3.png'']
         \<lparr>opt_concurrency = Some 1, opt_maxRetries = None, opt_retryDelayMs = None, opt_onProgress = True\<rparr>
         [TransferDone 0 save_throws_bare_object, Resume 0,
          TransferDone 0 save_throws_bare_object, Resume 0])) ! a) = downloading) (entries snap)))
       (emitted (snd (runDownloadTask Map.empty example_ids
         [''https://a/1.png'', ''https://a/2.png'', ''https://a/3.png'']
         \<lparr>opt_concurrency = Some 1, opt_maxRetries = None, opt_retryDelayMs = None, opt_onProgress = True\<rparr>
         [TransferDone 0 save_throws_bare_object, Resume 0,
          TransferDone 0 save_throws_bare_object, Resume 0])))
     = [0, 1, 2, 3]"
  by code_simp

end
